theory Spec2Isabelle
  imports Main "HOL-Library.Multiset" "HOL-Library.Sublist"
begin

section \<open>Thread summaries and tracked state\<close>

text \<open>
  A thread as the archiver sees it (\<^verbatim>\<open>ThreadComment\<close>, built in the tests by
  \<^verbatim>\<open>mockThread(cid, overrides)\<close>): the identifier, the pinned and locked flags, the reply
  count, and the two optional fields \<^verbatim>\<open>lastReplyTimestamp\<close> and \<^verbatim>\<open>postNumber\<close>.
  Numbers are integers (seconds, counts, sequence numbers).
\<close>

record ThreadComment =
  cid :: string
  pinned :: bool
  locked :: bool
  replyCount :: int
  lastReplyTimestamp :: "int option"
  postNumber :: "int option"

text \<open>
  \<^verbatim>\<open>state.lockedThreads\<close>: a JavaScript object from thread identifier to
  \<^verbatim>\<open>{ lockTimestamp }\<close>, kept as the list \<^verbatim>\<open>Object.entries\<close> enumerates.
\<close>

type_synonym LockedThreads = "(string \<times> int) list"

section \<open>Purge timing\<close>

text \<open>
  \<^verbatim>\<open>Object.entries(state.lockedThreads)
      .filter(([_, info]) => now - info.lockTimestamp > archivePurgeSeconds)\<close>
  (archiver.test.ts, purge timing).
\<close>

definition toPurge :: "LockedThreads \<Rightarrow> int \<Rightarrow> int \<Rightarrow> (string \<times> int) list" where
  "toPurge lockedThreads now archivePurgeSeconds =
     filter (\<lambda>(c, lockTimestamp). now - lockTimestamp > archivePurgeSeconds) lockedThreads"

section \<open>Capacity overflow and bump limit\<close>


text \<open>\<^verbatim>\<open>const nonPinned = threads.filter((t) => !t.pinned)\<close>.\<close>

definition nonPinned :: "ThreadComment list \<Rightarrow> ThreadComment list" where
  "nonPinned threads = filter (\<lambda>t. \<not> pinned t) threads"

text \<open>
  \<^verbatim>\<open>const beyondCapacity = nonPinned.slice(maxThreads)\<close>; \<^verbatim>\<open>slice\<close> at a
  non-negative index drops that many leading elements, and all of them when the array
  is shorter.
\<close>

definition beyondCapacity :: "nat \<Rightarrow> ThreadComment list \<Rightarrow> ThreadComment list" where
  "beyondCapacity maxT threads = drop maxT (nonPinned threads)"

text \<open>
  The property read \<^verbatim>\<open>state.lockedThreads[t.cid]\<close>, taken as a condition.
  \<^verbatim>\<open>lockedThreads\<close> is a plain object, so the read finds an own entry, which is an
  object and truthy, or else goes up the prototype chain to \<^verbatim>\<open>Object.prototype\<close>,
  whose properties are these twelve, each of them truthy.
\<close>

definition Object_prototype_names :: "string list" where
  "Object_prototype_names =
     [''constructor'', ''__defineGetter__'', ''__defineSetter__'', ''hasOwnProperty'',
      ''__lookupGetter__'', ''__lookupSetter__'', ''isPrototypeOf'', ''propertyIsEnumerable'',
      ''toString'', ''valueOf'', ''__proto__'', ''toLocaleString'']"

definition truthyEntry :: "LockedThreads \<Rightarrow> string \<Rightarrow> bool" where
  "truthyEntry lockedThreads c =
     (map_of lockedThreads c \<noteq> None \<or> c \<in> set Object_prototype_names)"

text \<open>
  \<^verbatim>\<open>const toLock = beyondCapacity.filter((t) => !t.locked && !state.lockedThreads[t.cid])\<close>
  (archiver.test.ts, idempotency).
\<close>

definition toLock :: "LockedThreads \<Rightarrow> nat \<Rightarrow> ThreadComment list \<Rightarrow> ThreadComment list" where
  "toLock lockedThreads maxT threads =
     filter (\<lambda>t. \<not> locked t \<and> \<not> truthyEntry lockedThreads (cid t)) (beyondCapacity maxT threads)"

text \<open>
  \<^verbatim>\<open>threads.filter((t) => t.replyCount >= bumpLimit && !t.locked)\<close>
  (archiver.test.ts, bump limit detection).
\<close>

definition atBumpLimit :: "int \<Rightarrow> ThreadComment list \<Rightarrow> ThreadComment list" where
  "atBumpLimit bumpLimit threads = filter (\<lambda>t. replyCount t \<ge> bumpLimit \<and> \<not> locked t) threads"

section \<open>Active sort from hot pages\<close>

text \<open>The nullish coalescing operator \<^verbatim>\<open>x ?? d\<close>.\<close>

definition nullish :: "'a option \<Rightarrow> 'a \<Rightarrow> 'a" where
  "nullish x d = (case x of None \<Rightarrow> d | Some v \<Rightarrow> v)"

text \<open>
  The comparator of the fallback ranking (archiver.test.ts, active sort from hot pages):
  \<^verbatim>\<open>(a, b) => {
    const diff = (b.lastReplyTimestamp ?? 0) - (a.lastReplyTimestamp ?? 0)
    if (diff !== 0) return diff
    return (b.postNumber ?? 0) - (a.postNumber ?? 0)
  }\<close>
\<close>

definition compareThreads :: "ThreadComment \<Rightarrow> ThreadComment \<Rightarrow> int" where
  "compareThreads a b =
     (let diff = nullish (lastReplyTimestamp b) 0 - nullish (lastReplyTimestamp a) 0
      in if diff \<noteq> 0 then diff
         else nullish (postNumber b) 0 - nullish (postNumber a) 0)"

text \<open>
  \<^verbatim>\<open>Array.prototype.sort(compareFn)\<close>. The sort is stable (ECMAScript 2019): elements
  the comparator calls equal keep their order, and \<^verbatim>\<open>x\<close> goes before \<^verbatim>\<open>y\<close> when
  \<^verbatim>\<open>compareFn(x, y) < 0\<close>. For a comparator that is a consistent ordering this fixes
  the result, which is what a stable insertion sort computes.
\<close>

fun insert_by :: "('a \<Rightarrow> 'a \<Rightarrow> int) \<Rightarrow> 'a \<Rightarrow> 'a list \<Rightarrow> 'a list" where
  "insert_by compareFn x [] = [x]"
| "insert_by compareFn x (y # ys) =
     (if compareFn x y \<le> 0 then x # y # ys else y # insert_by compareFn x ys)"

definition Array_sort :: "('a \<Rightarrow> 'a \<Rightarrow> int) \<Rightarrow> 'a list \<Rightarrow> 'a list" where
  "Array_sort compareFn xs = foldr (insert_by compareFn) xs []"

text \<open>\<^verbatim>\<open>threads.sort((a, b) => ...)\<close> with the comparator above.\<close>

definition sortThreads :: "ThreadComment list \<Rightarrow> ThreadComment list" where
  "sortThreads threads = Array_sort compareThreads threads"

text \<open>
  The ranking in the spec's words: descending by last-reply timestamp, ties broken by
  descending sequence/post number, an absent field read as 0.
\<close>

definition ranksBefore :: "ThreadComment \<Rightarrow> ThreadComment \<Rightarrow> bool" where
  "ranksBefore a b =
     (nullish (lastReplyTimestamp a) 0 > nullish (lastReplyTimestamp b) 0
      \<or> (nullish (lastReplyTimestamp a) 0 = nullish (lastReplyTimestamp b) 0
         \<and> nullish (postNumber a) 0 \<ge> nullish (postNumber b) 0))"

text \<open>The pair of keys the comparator reads.\<close>

definition sortKey :: "ThreadComment \<Rightarrow> int \<times> int" where
  "sortKey t = (nullish (lastReplyTimestamp t) 0, nullish (postNumber t) 0)"

text \<open>\<^verbatim>\<open>mockThread(cid, overrides)\<close> with its defaults.\<close>

definition mockThread :: "string \<Rightarrow> ThreadComment" where
  "mockThread c = \<lparr>cid = c, pinned = False, locked = False, replyCount = 0,
                   lastReplyTimestamp = None, postNumber = None\<rparr>"

section \<open>The state store (state.ts)\<close>

text \<open>
  A JavaScript value as JSON carries it. The state holds integer seconds and process
  identifiers, so numbers are integers. An object is the list of its own properties in
  enumeration order.
\<close>

datatype json =
    JNull
  | JBool bool
  | JNumber int
  | JString string
  | JArray "json list"
  | JObject "(string \<times> json) list"

text \<open>What a call can throw.\<close>

datatype js_error =
    ENOENT | EISDIR | ENOTDIR | EEXIST | EACCES | ESRCH | EPERM
  | SyntaxError
  | TypeError
  | Error string

text \<open>
  The file system the \<^verbatim>\<open>node:fs\<close> calls act on. A path is the list of its components
  below the root, and a path is bound to a regular file with its content, to a
  directory, or to nothing; the root itself is a directory. Apart from the shape of the
  tree, the system may refuse a call (permissions, a read-only mount, no space left):
  \<^verbatim>\<open>readRefused\<close> holds of the files it does not let the process read, and
  \<^verbatim>\<open>writeRefused\<close> of the paths it does not let the process create or write.
\<close>

type_synonym path = "string list"

datatype node = File string | Dir

record filesystem =
  entries :: "path \<Rightarrow> node option"
  readRefused :: "path \<Rightarrow> bool"
  writeRefused :: "path \<Rightarrow> bool"

text \<open>A file system with the given entries that refuses nothing.\<close>

definition fsOf :: "(path \<Rightarrow> node option) \<Rightarrow> filesystem" where
  "fsOf es = \<lparr>entries = es, readRefused = (\<lambda>p. False), writeRefused = (\<lambda>p. False)\<rparr>"

definition isDirectory :: "filesystem \<Rightarrow> path \<Rightarrow> bool" where
  "isDirectory fs p = (p = [] \<or> entries fs p = Some Dir)"

text \<open>\<^verbatim>\<open>dirname(path)\<close>: the path without its last component.\<close>

definition dirname :: "path \<Rightarrow> path" where
  "dirname p = butlast p"

text \<open>\<^verbatim>\<open>readFileSync(path, 'utf-8')\<close>: the content of a regular file, or an error.\<close>

definition readFileSync :: "filesystem \<Rightarrow> path \<Rightarrow> js_error + string" where
  "readFileSync fs p =
     (if isDirectory fs p then Inl EISDIR
      else case entries fs p of
        None \<Rightarrow> Inl ENOENT
      | Some Dir \<Rightarrow> Inl EISDIR
      | Some (File data) \<Rightarrow> if readRefused fs p then Inl EACCES else Inr data)"

text \<open>
  \<^verbatim>\<open>mkdirSync(dir, { recursive: true })\<close>: walks the ancestors of \<^verbatim>\<open>dir\<close> from the
  root down and creates each one that is missing; an existing directory is left alone,
  and a regular file in the way is an error.
\<close>

fun mkdirs :: "filesystem \<Rightarrow> path list \<Rightarrow> js_error + filesystem" where
  "mkdirs fs [] = Inr fs"
| "mkdirs fs (p # ps) =
     (case entries fs p of
        None \<Rightarrow>
          if writeRefused fs p then Inl EACCES
          else mkdirs (fs\<lparr>entries := (entries fs)(p \<mapsto> Dir)\<rparr>) ps
      | Some Dir \<Rightarrow> mkdirs fs ps
      | Some (File data) \<Rightarrow> Inl (if ps = [] then EEXIST else ENOTDIR))"

definition mkdirSync_recursive :: "filesystem \<Rightarrow> path \<Rightarrow> js_error + filesystem" where
  "mkdirSync_recursive fs dir = mkdirs fs (tl (prefixes dir))"

text \<open>
  \<^verbatim>\<open>writeFileSync(path, data)\<close>: creates or overwrites the regular file; the parent
  must be a directory, and the path must not be one.
\<close>

definition writeFileSync :: "filesystem \<Rightarrow> path \<Rightarrow> string \<Rightarrow> js_error + filesystem" where
  "writeFileSync fs p data =
     (if isDirectory fs p then Inl EISDIR
      else if \<not> isDirectory fs (dirname p) then
        Inl (if entries fs (dirname p) = None then ENOENT else ENOTDIR)
      else if writeRefused fs p then Inl EACCES
      else Inr (fs\<lparr>entries := (entries fs)(p \<mapsto> File data)\<rparr>))"

text \<open>\<^verbatim>\<open>try { body } catch { handler }\<close>.\<close>

definition try_catch :: "js_error + 'a \<Rightarrow> js_error + 'a \<Rightarrow> js_error + 'a" where
  "try_catch body handler = (case body of Inl e \<Rightarrow> handler | Inr v \<Rightarrow> Inr v)"

text \<open>
  \<^verbatim>\<open>const DEFAULT_STATE: ArchiverState = { signers: {}, lockedThreads: {} }\<close>, and
  \<^verbatim>\<open>structuredClone\<close>, whose copy is the same value.
\<close>

definition DEFAULT_STATE :: json where
  "DEFAULT_STATE = JObject [(''signers'', JObject []), (''lockedThreads'', JObject [])]"

definition structuredClone :: "json \<Rightarrow> json" where
  "structuredClone v = v"

text \<open>
  \<^verbatim>\<open>export function loadState(path: string): ArchiverState {
    try {
      const data = readFileSync(path, 'utf-8')
      return JSON.parse(data) as ArchiverState
    } catch {
      return structuredClone(DEFAULT_STATE)
    }
  }\<close>
  \<^verbatim>\<open>JSON.parse\<close> is the platform's and is a parameter. The cast \<^verbatim>\<open>as ArchiverState\<close>
  is erased at run time: the value returned is whatever the text parses to.
\<close>

definition loadState :: "(string \<Rightarrow> js_error + json) \<Rightarrow> filesystem \<Rightarrow> path \<Rightarrow> js_error + json" where
  "loadState JSON_parse fs p =
     try_catch
       (case readFileSync fs p of
          Inl e \<Rightarrow> Inl e
        | Inr data \<Rightarrow> JSON_parse data)
       (Inr (structuredClone DEFAULT_STATE))"

text \<open>
  \<^verbatim>\<open>export function saveState(path: string, state: ArchiverState): void {
    mkdirSync(dirname(path), { recursive: true })
    writeFileSync(path, JSON.stringify(state, null, 2) + '\n')
  }\<close>
  \<^verbatim>\<open>JSON_stringify\<close> stands for the platform's \<^verbatim>\<open>JSON.stringify(_, null, 2)\<close>.
\<close>

definition saveState :: "(json \<Rightarrow> string) \<Rightarrow> filesystem \<Rightarrow> path \<Rightarrow> json \<Rightarrow> js_error + filesystem" where
  "saveState JSON_stringify fs p state =
     (case mkdirSync_recursive fs (dirname p) of
        Inl e \<Rightarrow> Inl e
      | Inr fs1 \<Rightarrow> writeFileSync fs1 p (JSON_stringify state @ ''\<newline>''))"


text \<open>
  Modelled from the spec: the type \<^verbatim>\<open>ArchiverState\<close> of types.ts, which is not among
  the sources. The spec's data model (section 3) and the states the tests build give
  the shape: an object whose \<^verbatim>\<open>signers\<close> maps each address to an object with a
  string \<^verbatim>\<open>privateKey\<close>, whose \<^verbatim>\<open>lockedThreads\<close> maps each identifier to an object
  with a numeric \<^verbatim>\<open>lockTimestamp\<close>, and whose \<^verbatim>\<open>lock\<close>, when present, is an object
  with a numeric \<^verbatim>\<open>pid\<close>.
\<close>

definition isSigner :: "json \<Rightarrow> bool" where
  "isSigner v = (case v of
      JObject kvs \<Rightarrow> (case map_of kvs ''privateKey'' of Some (JString k) \<Rightarrow> True | _ \<Rightarrow> False)
    | _ \<Rightarrow> False)"

definition isLockedThread :: "json \<Rightarrow> bool" where
  "isLockedThread v = (case v of
      JObject kvs \<Rightarrow> (case map_of kvs ''lockTimestamp'' of Some (JNumber n) \<Rightarrow> True | _ \<Rightarrow> False)
    | _ \<Rightarrow> False)"

definition isLock :: "json \<Rightarrow> bool" where
  "isLock v = (case v of
      JObject kvs \<Rightarrow> (case map_of kvs ''pid'' of Some (JNumber n) \<Rightarrow> True | _ \<Rightarrow> False)
    | _ \<Rightarrow> False)"

definition isArchiverState :: "json \<Rightarrow> bool" where
  "isArchiverState v = (case v of
      JObject kvs \<Rightarrow>
        (case map_of kvs ''signers'' of
           Some (JObject ss) \<Rightarrow> list_all (\<lambda>(k, s). isSigner s) ss
         | _ \<Rightarrow> False)
        \<and> (case map_of kvs ''lockedThreads'' of
           Some (JObject ts) \<Rightarrow> list_all (\<lambda>(k, t). isLockedThread t) ts
         | _ \<Rightarrow> False)
        \<and> (case map_of kvs ''lock'' of
           None \<Rightarrow> True
         | Some l \<Rightarrow> isLock l)
    | _ \<Rightarrow> False)"

section \<open>A reference JSON reader and writer\<close>

text \<open>
  \<^verbatim>\<open>JSON.parse\<close> and \<^verbatim>\<open>JSON.stringify\<close> belong to the platform; \<^verbatim>\<open>loadState\<close>
  and \<^verbatim>\<open>saveState\<close> take them as parameters. To run the two functions on concrete
  files, this section implements both for the fragment of JSON a state file is written
  in: objects, arrays, strings, integers and the three literals.
\<close>

text \<open>Decimal numerals, as \<^verbatim>\<open>String(n)\<close> writes an integer.\<close>

definition digit_char :: "int \<Rightarrow> char" where
  "digit_char d = char_of (48 + d)"

function show_digits :: "int \<Rightarrow> string" where
  "show_digits n =
     (if n < 10 then [digit_char n]
      else show_digits (n div 10) @ [digit_char (n mod 10)])"
  by pat_completeness auto
termination
  by (relation "measure nat") auto

declare show_digits.simps [simp del]

definition show_int :: "int \<Rightarrow> string" where
  "show_int i = (if i < 0 then ''-'' @ show_digits (- i) else show_digits i)"

text \<open>
  A string literal as \<^verbatim>\<open>JSON.stringify\<close> writes it: the quotation mark, the
  backslash and the control characters are escaped.
\<close>

definition hex_digit :: "nat \<Rightarrow> char" where
  "hex_digit n = (if n < 10 then char_of (48 + n) else char_of (87 + n))"

definition quote_char :: "char \<Rightarrow> string" where
  "quote_char c =
     (if c = CHR 0x22 then [CHR 0x5C, CHR 0x22]
      else if c = CHR 0x5C then [CHR 0x5C, CHR 0x5C]
      else if c = CHR 0x08 then [CHR 0x5C, CHR ''b'']
      else if c = CHR 0x0C then [CHR 0x5C, CHR ''f'']
      else if c = CHR 0x0A then [CHR 0x5C, CHR ''n'']
      else if c = CHR 0x0D then [CHR 0x5C, CHR ''r'']
      else if c = CHR 0x09 then [CHR 0x5C, CHR ''t'']
      else if (of_char c :: nat) < 32
        then [CHR 0x5C, CHR ''u'', CHR ''0'', CHR ''0'',
              hex_digit (of_char c div 16), hex_digit (of_char c mod 16)]
      else [c])"

definition quote :: "string \<Rightarrow> string" where
  "quote s = [CHR 0x22] @ concat (map quote_char s) @ [CHR 0x22]"

text \<open>\<^verbatim>\<open>Array.prototype.join\<close> on strings.\<close>

fun join :: "string \<Rightarrow> string list \<Rightarrow> string" where
  "join sep [] = []"
| "join sep [x] = x"
| "join sep (x # y # ys) = x @ sep @ join sep (y # ys)"

text \<open>
  The text of a value with an indentation step of two spaces: every element of a
  non-empty array or object on a line of its own, one step deeper than its parent.
\<close>

fun stringify :: "nat \<Rightarrow> json \<Rightarrow> string" where
  "stringify ind JNull = ''null''"
| "stringify ind (JBool b) = (if b then ''true'' else ''false'')"
| "stringify ind (JNumber n) = show_int n"
| "stringify ind (JString s) = quote s"
| "stringify ind (JArray vs) =
     (if vs = [] then ''[]''
      else ''['' @ ''\<newline>''
        @ join ('','' @ ''\<newline>'')
            (map (\<lambda>v. replicate (ind + 2) CHR '' '' @ stringify (ind + 2) v) vs)
        @ ''\<newline>'' @ replicate ind CHR '' '' @ '']'')"
| "stringify ind (JObject kvs) =
     (if kvs = [] then ''{}''
      else ''{'' @ ''\<newline>''
        @ join ('','' @ ''\<newline>'')
            (map (\<lambda>kv. replicate (ind + 2) CHR '' '' @ quote (fst kv) @ '': ''
                          @ stringify (ind + 2) (snd kv)) kvs)
        @ ''\<newline>'' @ replicate ind CHR '' '' @ ''}'')"

text \<open>
  Reading JSON text. White space is space, tab, line feed and carriage return; a number
  is an optional minus sign and a decimal integer without a leading zero; a string
  literal ends at the first unescaped quotation mark and admits the two-character
  escapes and the four-digit escape of a code point up to 7f. A fraction, an exponent
  and the escape of a higher code point are outside the fragment read here and are
  refused.
\<close>

definition is_ws :: "char \<Rightarrow> bool" where
  "is_ws c = (c = CHR '' '' \<or> c = CHR 0x09 \<or> c = CHR 0x0A \<or> c = CHR 0x0D)"

definition skip_ws :: "string \<Rightarrow> string" where
  "skip_ws s = dropWhile is_ws s"

definition is_digit :: "char \<Rightarrow> bool" where
  "is_digit c = (48 \<le> (of_char c :: int) \<and> (of_char c :: int) \<le> 57)"

definition digits_value :: "string \<Rightarrow> int" where
  "digits_value ds = foldl (\<lambda>acc c. 10 * acc + (of_char c - 48)) 0 ds"

definition parse_nat :: "string \<Rightarrow> (int \<times> string) option" where
  "parse_nat s =
     (let ds = takeWhile is_digit s; r = dropWhile is_digit s
      in if ds = [] \<or> (length ds > 1 \<and> hd ds = CHR ''0'') then None
         else if r \<noteq> [] \<and> hd r \<in> set ''.eE'' then None
         else Some (digits_value ds, r))"

definition unescape :: "char \<Rightarrow> char option" where
  "unescape e =
     (if e = CHR 0x22 then Some (CHR 0x22)
      else if e = CHR 0x5C then Some (CHR 0x5C)
      else if e = CHR ''/'' then Some (CHR ''/'')
      else if e = CHR ''b'' then Some (CHR 0x08)
      else if e = CHR ''f'' then Some (CHR 0x0C)
      else if e = CHR ''n'' then Some (CHR 0x0A)
      else if e = CHR ''r'' then Some (CHR 0x0D)
      else if e = CHR ''t'' then Some (CHR 0x09)
      else None)"

text \<open>
  The escape \<^verbatim>\<open>u\<close> with four hexadecimal digits. A character here is a byte of the
  text, so only the code points up to 7f are read.
\<close>

definition hex_value :: "char \<Rightarrow> nat option" where
  "hex_value c =
     (let n = of_char c :: nat
      in if 48 \<le> n \<and> n \<le> 57 then Some (n - 48)
         else if 97 \<le> n \<and> n \<le> 102 then Some (n - 87)
         else if 65 \<le> n \<and> n \<le> 70 then Some (n - 55)
         else None)"

definition unicode_escape :: "char \<Rightarrow> char \<Rightarrow> char \<Rightarrow> char \<Rightarrow> char option" where
  "unicode_escape h1 h2 h3 h4 =
     (case (hex_value h1, hex_value h2, hex_value h3, hex_value h4) of
        (Some a, Some b, Some c, Some d) \<Rightarrow>
          if a = 0 \<and> b = 0 \<and> c < 8 then Some (char_of (16 * c + d)) else None
      | _ \<Rightarrow> None)"

fun parse_string :: "string \<Rightarrow> (string \<times> string) option" where
  "parse_string [] = None"
| "parse_string (c # cs) =
     (if c = CHR 0x22 then Some ([], cs)
      else if c = CHR 0x5C then
        (case cs of
           [] \<Rightarrow> None
         | d # ds \<Rightarrow>
             if d = CHR ''u'' then
               (case ds of
                  h1 # h2 # h3 # h4 # r \<Rightarrow>
                    (case unicode_escape h1 h2 h3 h4 of
                       None \<Rightarrow> None
                     | Some ch \<Rightarrow>
                         (case parse_string r of
                            None \<Rightarrow> None
                          | Some (str, r') \<Rightarrow> Some (ch # str, r')))
                | _ \<Rightarrow> None)
             else
               (case unescape d of
                  None \<Rightarrow> None
                | Some ch \<Rightarrow>
                    (case parse_string ds of
                       None \<Rightarrow> None
                     | Some (str, r') \<Rightarrow> Some (ch # str, r'))))
      else if (of_char c :: nat) < 32 then None
      else (case parse_string cs of None \<Rightarrow> None | Some (str, r') \<Rightarrow> Some (c # str, r')))"

definition strip_prefix :: "string \<Rightarrow> string \<Rightarrow> string option" where
  "strip_prefix w s = (if take (length w) s = w then Some (drop (length w) s) else None)"

text \<open>
  Setting a property of an object: an existing key keeps its place and takes the new
  value, a new key goes last.
\<close>

fun set_property :: "string \<Rightarrow> json \<Rightarrow> (string \<times> json) list \<Rightarrow> (string \<times> json) list" where
  "set_property k v [] = [(k, v)]"
| "set_property k v ((k', v') # kvs) =
     (if k' = k then (k, v) # kvs else (k', v') # set_property k v kvs)"

text \<open>
  The recursive descent over values, array elements and object members. The first
  argument bounds the number of nested calls; the length of the text is enough for it.
\<close>

fun parse_value :: "nat \<Rightarrow> string \<Rightarrow> (json \<times> string) option"
  and parse_elements :: "nat \<Rightarrow> json list \<Rightarrow> string \<Rightarrow> (json list \<times> string) option"
  and parse_members :: "nat \<Rightarrow> (string \<times> json) list \<Rightarrow> string \<Rightarrow> ((string \<times> json) list \<times> string) option"
where
  "parse_value 0 s = None"
| "parse_value (Suc n) [] = None"
| "parse_value (Suc n) (c # cs) =
     (if c = CHR ''{'' then
        (case strip_prefix ''}'' (skip_ws cs) of
           Some r \<Rightarrow> Some (JObject [], r)
         | None \<Rightarrow> (case parse_members n [] (skip_ws cs) of
                      None \<Rightarrow> None
                    | Some (kvs, r) \<Rightarrow> Some (JObject kvs, r)))
      else if c = CHR ''['' then
        (case strip_prefix '']'' (skip_ws cs) of
           Some r \<Rightarrow> Some (JArray [], r)
         | None \<Rightarrow> (case parse_elements n [] (skip_ws cs) of
                      None \<Rightarrow> None
                    | Some (vs, r) \<Rightarrow> Some (JArray vs, r)))
      else if c = CHR 0x22 then
        (case parse_string cs of None \<Rightarrow> None | Some (str, r) \<Rightarrow> Some (JString str, r))
      else if c = CHR ''-'' then
        (case parse_nat cs of None \<Rightarrow> None | Some (m, r) \<Rightarrow> Some (JNumber (- m), r))
      else if is_digit c then
        (case parse_nat (c # cs) of None \<Rightarrow> None | Some (m, r) \<Rightarrow> Some (JNumber m, r))
      else (case strip_prefix ''null'' (c # cs) of
              Some r \<Rightarrow> Some (JNull, r)
            | None \<Rightarrow> (case strip_prefix ''true'' (c # cs) of
                Some r \<Rightarrow> Some (JBool True, r)
              | None \<Rightarrow> (case strip_prefix ''false'' (c # cs) of
                  Some r \<Rightarrow> Some (JBool False, r)
                | None \<Rightarrow> None))))"
| "parse_elements 0 acc s = None"
| "parse_elements (Suc n) acc s =
     (case parse_value n s of
        None \<Rightarrow> None
      | Some (v, r) \<Rightarrow>
          (case strip_prefix '','' (skip_ws r) of
             Some r' \<Rightarrow> parse_elements n (acc @ [v]) (skip_ws r')
           | None \<Rightarrow> (case strip_prefix '']'' (skip_ws r) of
                        Some r' \<Rightarrow> Some (acc @ [v], r')
                      | None \<Rightarrow> None)))"
| "parse_members 0 acc s = None"
| "parse_members (Suc n) acc s =
     (case strip_prefix [CHR 0x22] s of
        None \<Rightarrow> None
      | Some s1 \<Rightarrow>
          (case parse_string s1 of
             None \<Rightarrow> None
           | Some (k, r) \<Rightarrow>
               (case strip_prefix '':'' (skip_ws r) of
                  None \<Rightarrow> None
                | Some r1 \<Rightarrow>
                   (case parse_value n (skip_ws r1) of
                      None \<Rightarrow> None
                    | Some (v, r2) \<Rightarrow>
                        (case strip_prefix '','' (skip_ws r2) of
                           Some r3 \<Rightarrow> parse_members n (set_property k v acc) (skip_ws r3)
                         | None \<Rightarrow> (case strip_prefix ''}'' (skip_ws r2) of
                                      Some r3 \<Rightarrow> Some (set_property k v acc, r3)
                                    | None \<Rightarrow> None))))))"

text \<open>
  The two built-ins on this fragment: \<^verbatim>\<open>JSON.parse(text)\<close>, which throws a
  \<^verbatim>\<open>SyntaxError\<close> on text it cannot read, and \<^verbatim>\<open>JSON.stringify(value, null, 2)\<close>.
\<close>

definition ref_JSON_parse :: "string \<Rightarrow> js_error + json" where
  "ref_JSON_parse s =
     (case parse_value (Suc (length s)) (skip_ws s) of
        None \<Rightarrow> Inl SyntaxError
      | Some (v, r) \<Rightarrow> if skip_ws r = [] then Inr v else Inl SyntaxError)"

definition ref_JSON_stringify :: "json \<Rightarrow> string" where
  "ref_JSON_stringify v = stringify 0 v"

text \<open>
  A JavaScript object holds each key once, and so does every object inside it: the
  values of \<^verbatim>\<open>json\<close> that are JavaScript values.
\<close>

fun wf_json :: "json \<Rightarrow> bool" where
  "wf_json (JArray vs) = (\<forall>v \<in> set vs. wf_json v)"
| "wf_json (JObject kvs) = (distinct (map fst kvs) \<and> (\<forall>kv \<in> set kvs. wf_json (snd kv)))"
| "wf_json v = True"

text \<open>The object built by assigning the properties in order.\<close>

definition object_of :: "(string \<times> json) list \<Rightarrow> json" where
  "object_of kvs = JObject (fold (\<lambda>(k, v). set_property k v) kvs [])"

text \<open>
  Modelled from the spec: the values of the type \<^verbatim>\<open>ArchiverState\<close> of types.ts, which
  is not among the sources. The spec's data model (section 3) gives the fields:
  \<^verbatim>\<open>signers\<close> from board identifier to signer material (the tests write
  \<^verbatim>\<open>{ privateKey }\<close>), \<^verbatim>\<open>lockedThreads\<close> from thread identifier to
  \<^verbatim>\<open>{ lockTimestamp }\<close>, and the optional \<^verbatim>\<open>lock: { pid }\<close>.
\<close>

definition archiverState :: "(string \<times> string) list \<Rightarrow> LockedThreads \<Rightarrow> int option \<Rightarrow> json" where
  "archiverState signers lockedThreads lock =
     JObject
       ([(''signers'',
            object_of (map (\<lambda>(a, k). (a, JObject [(''privateKey'', JString k)])) signers)),
         (''lockedThreads'',
            object_of (map (\<lambda>(c, t). (c, JObject [(''lockTimestamp'', JNumber t)])) lockedThreads))]
        @ (case lock of None \<Rightarrow> [] | Some pid \<Rightarrow> [(''lock'', JObject [(''pid'', JNumber pid)])]))"

text \<open>
  What the proofs about the reader say of a text: the characters that may follow a
  value, the characters a value may start with, and a value that is read back from its
  own text at every indentation, before every such rest, with enough nested calls.
\<close>

definition ok_rest :: "string \<Rightarrow> bool" where
  "ok_rest rest = (rest = [] \<or> hd rest = CHR '','' \<or> hd rest = CHR ''\<newline>'')"

definition value_start :: "char \<Rightarrow> bool" where
  "value_start c = (\<not> is_ws c \<and> c \<noteq> CHR '']'' \<and> c \<noteq> CHR ''}'')"

definition reads_back :: "json \<Rightarrow> bool" where
  "reads_back v = (\<forall>i n rest. ok_rest rest \<longrightarrow> length (stringify i v) \<le> n \<longrightarrow>
       parse_value n (stringify i v @ rest) = Some (v, rest))"

section \<open>The lifecycle evaluator\<close>

text \<open>
  Modelled from the spec: the lifecycle evaluator of archiver.ts, which is not among the
  sources. The spec (section 4.4) gives four rules. Capacity overflow: filter out
  pinned threads; among the remainder, in rank order, every thread beyond index
  \<^verbatim>\<open>capacity\<close> and not already flagged locked by the platform is a lock candidate. Bump
  limit: every thread with \<^verbatim>\<open>replyCount \<ge> bumpLimit\<close> and not already flagged locked
  is a lock candidate, independent of rank position; pinned threads are exempt from
  both rules. Idempotency: a lock candidate already present in
  \<^verbatim>\<open>trackedState.lockedThreads\<close> is excluded. Purge: every identifier in
  \<^verbatim>\<open>trackedState.lockedThreads\<close> with \<^verbatim>\<open>now - lockTimestamp > purgeAfterSeconds\<close> is a
  purge candidate. The rules are evaluated independently and unioned.
\<close>

text \<open>Modelled from the spec: the capacity overflow rule.\<close>

definition capacityOverflow :: "nat \<Rightarrow> ThreadComment list \<Rightarrow> ThreadComment list" where
  "capacityOverflow capacity rankedThreads =
     filter (\<lambda>t. \<not> locked t) (drop capacity (filter (\<lambda>t. \<not> pinned t) rankedThreads))"

text \<open>Modelled from the spec: the bump limit rule, with the exemption of pinned threads.\<close>

definition bumpLimited :: "int \<Rightarrow> ThreadComment list \<Rightarrow> ThreadComment list" where
  "bumpLimited bumpLimit rankedThreads =
     filter (\<lambda>t. replyCount t \<ge> bumpLimit \<and> \<not> locked t) (filter (\<lambda>t. \<not> pinned t) rankedThreads)"

text \<open>
  Modelled from the spec: the two rules unioned, less the candidates already tracked in
  \<^verbatim>\<open>lockedThreads\<close>.
\<close>

definition lockCandidates ::
  "nat \<Rightarrow> int \<Rightarrow> LockedThreads \<Rightarrow> ThreadComment list \<Rightarrow> ThreadComment list" where
  "lockCandidates capacity bumpLimit lockedThreads rankedThreads =
     filter (\<lambda>t. map_of lockedThreads (cid t) = None)
       (capacityOverflow capacity rankedThreads @ bumpLimited bumpLimit rankedThreads)"

text \<open>
  Modelled from the spec: the evaluator's result, the identifiers to lock and the
  identifiers to purge, with \<^verbatim>\<open>capacity = perPage * pages\<close>.
\<close>

record Decisions =
  lockIds :: "string list"
  purgeIds :: "string list"

definition evaluate ::
  "nat \<Rightarrow> nat \<Rightarrow> int \<Rightarrow> int \<Rightarrow> int \<Rightarrow> LockedThreads \<Rightarrow> ThreadComment list \<Rightarrow> Decisions" where
  "evaluate perPage pages bumpLimit purgeAfterSeconds now lockedThreads rankedThreads =
     \<lparr>lockIds = remdups (map cid
          (lockCandidates (perPage * pages) bumpLimit lockedThreads rankedThreads)),
      purgeIds = map fst
          (filter (\<lambda>(c, lockTimestamp). now - lockTimestamp > purgeAfterSeconds) lockedThreads)\<rparr>"

section \<open>The update scheduler\<close>

text \<open>
  Modelled from the spec: the update scheduler of archiver.ts, which is not among the
  sources. The spec (section 4.6) gives a state machine with two flags, \<^verbatim>\<open>running\<close>
  and \<^verbatim>\<open>pending\<close>. Idle and a notification: start a cycle. Running and a notification:
  set \<^verbatim>\<open>pending\<close>, start nothing. A cycle completes with \<^verbatim>\<open>pending\<close> clear: idle. A
  cycle completes with \<^verbatim>\<open>pending\<close> set: clear it and start exactly one more cycle.
  Two counters observe the machine: the cycles in flight and the cycles started so far
  (the tests count the latter by the page fetches). A completion can only come from a
  cycle in flight.
\<close>

text \<open>Modelled from the spec: the two flags, and the two counters that observe them.\<close>

record Scheduler =
  running :: bool
  pending :: bool
  inFlight :: nat
  cyclesStarted :: nat

text \<open>
  Modelled from the spec: what the machine reacts to, a change notification from the
  feed and the completion of the cycle in flight.
\<close>

datatype event = Notification | CycleCompleted

text \<open>Modelled from the spec: the idle state, before any notification.\<close>

definition idle :: Scheduler where
  "idle = \<lparr>running = False, pending = False, inFlight = 0, cyclesStarted = 0\<rparr>"

text \<open>Modelled from the spec: starting a cycle sets \<^verbatim>\<open>running\<close>; both counters go up.\<close>

definition startCycle :: "Scheduler \<Rightarrow> Scheduler" where
  "startCycle s = s\<lparr>running := True, inFlight := inFlight s + 1,
                     cyclesStarted := cyclesStarted s + 1\<rparr>"

text \<open>Modelled from the spec: the five transitions.\<close>

fun step :: "Scheduler \<Rightarrow> event \<Rightarrow> Scheduler" where
  "step s Notification =
     (if running s then s\<lparr>pending := True\<rparr> else startCycle s)"
| "step s CycleCompleted =
     (if inFlight s = 0 then s
      else let s' = s\<lparr>inFlight := inFlight s - 1\<rparr>
           in if pending s' then startCycle (s'\<lparr>pending := False\<rparr>)
              else s'\<lparr>running := False\<rparr>)"

text \<open>Modelled from the spec: the machine run over a sequence of events.\<close>

definition run :: "Scheduler \<Rightarrow> event list \<Rightarrow> Scheduler" where
  "run s es = foldl step s es"

section \<open>The process lock\<close>


text \<open>
  Modelled from the spec: the lock acquisition at startup in archiver.ts, which is not
  among the sources. The spec (section 4.2): load the state; if \<^verbatim>\<open>lock\<close> is present,
  check liveness of the recorded process identifier; if live, fail fast with an error
  naming the board and the blocking identifier; if absent or the recorded process is
  dead, overwrite \<^verbatim>\<open>lock\<close> with the current process identifier and persist. The
  message is the one the tests expect:
  \<^verbatim>\<open>Another archiver (PID ${pid}) is already running for ${subplebbitAddress}\<close>.
  The state is loaded and persisted with \<^verbatim>\<open>loadState\<close> and \<^verbatim>\<open>saveState\<close>, and the
  liveness check is \<^verbatim>\<open>isPidAlive\<close>.
\<close>





section \<open>Example values\<close>

text \<open>
  A state as the tests build it:
  \<^verbatim>\<open>{ signers: { 'board.eth': { privateKey: 'existing-key' } },
    lockedThreads: { QmTest: { lockTimestamp: 1000 } } }\<close>,
  and \<^verbatim>\<open>{ signers: {}, lockedThreads: {}, lock: { pid } }\<close> of the process lock tests.
\<close>

definition exampleState :: json where
  "exampleState = JObject
     [(''signers'', JObject [(''board.eth'', JObject [(''privateKey'', JString ''existing-key'')])]),
      (''lockedThreads'', JObject [(''QmTest'', JObject [(''lockTimestamp'', JNumber 1000)])])]"


section \<open>The reader reads back what the writer writes\<close>

lemma digit_char_props:
  "0 \<le> d \<Longrightarrow> d < 10 \<Longrightarrow>
   is_digit (digit_char d) \<and> (of_char (digit_char d) :: int) = 48 + d"
  by (simp add: is_digit_def digit_char_def)

lemma digits_value_snoc: "digits_value (ds @ [c]) = 10 * digits_value ds + (of_char c - 48)"
  by (simp add: digits_value_def)

lemma digit_char_zero: "0 \<le> d \<Longrightarrow> d < 10 \<Longrightarrow> digit_char d = CHR ''0'' \<Longrightarrow> d = 0"
proof -
  assume d: "0 \<le> d" "d < 10" and "digit_char d = CHR ''0''"
  then have "(of_char (digit_char d) :: int) = of_char (CHR ''0'')" by simp
  then show "d = 0" using digit_char_props [OF d] by simp
qed

lemma show_digits_props:
  "0 \<le> n \<Longrightarrow> show_digits n \<noteq> [] \<and> (\<forall>c \<in> set (show_digits n). is_digit c)
     \<and> digits_value (show_digits n) = n
     \<and> (1 \<le> n \<longrightarrow> hd (show_digits n) \<noteq> CHR ''0'')
     \<and> (1 < length (show_digits n) \<longrightarrow> 10 \<le> n)"
proof (induction n rule: show_digits.induct)
  case (1 n)
  show ?case
  proof (cases "n < 10")
    case True
    then have s: "show_digits n = [digit_char n]" by (subst show_digits.simps) simp
    note d = digit_char_props [OF 1(2) True]
    have z: "1 \<le> n \<longrightarrow> digit_char n \<noteq> CHR ''0''"
      using digit_char_zero [OF 1(2) True] by auto
    show ?thesis unfolding s using d z by (simp add: digits_value_def)
  next
    case False
    then have s: "show_digits n = show_digits (n div 10) @ [digit_char (n mod 10)]"
      by (subst show_digits.simps) simp
    have ge: "0 \<le> n div 10" "1 \<le> n div 10" using False by simp_all
    note ih = 1(1) [OF False ge(1)]
    have d: "is_digit (digit_char (n mod 10))"
        "(of_char (digit_char (n mod 10)) :: int) = 48 + n mod 10"
      using digit_char_props [of "n mod 10"] by simp_all
    have a: "show_digits (n div 10) @ [digit_char (n mod 10)] \<noteq> []" by simp
    have b: "\<forall>c \<in> set (show_digits (n div 10) @ [digit_char (n mod 10)]). is_digit c"
      using ih d(1) by simp
    have c: "digits_value (show_digits (n div 10) @ [digit_char (n mod 10)]) = n"
      using ih d(2) by (simp add: digits_value_snoc)
    have e: "hd (show_digits (n div 10) @ [digit_char (n mod 10)]) \<noteq> CHR ''0''"
      using ih ge(2) by simp
    show ?thesis unfolding s using a b c e False by simp
  qed
qed

lemma ok_rest_simps [simp]:
  "ok_rest []" "ok_rest (CHR '','' # r)" "ok_rest (CHR ''\<newline>'' # r)"
  by (simp_all add: ok_rest_def)

lemma takeWhile_append_stop:
  "\<forall>c \<in> set xs. P c \<Longrightarrow> ys = [] \<or> \<not> P (hd ys) \<Longrightarrow>
   takeWhile P (xs @ ys) = xs \<and> dropWhile P (xs @ ys) = ys"
proof -
  assume a: "\<forall>c \<in> set xs. P c" and b: "ys = [] \<or> \<not> P (hd ys)"
  have "takeWhile P ys = [] \<and> dropWhile P ys = ys" using b by (cases ys) auto
  then show ?thesis using a by (induction xs) auto
qed

lemma parse_nat_show_digits:
  assumes "0 \<le> n" "ok_rest rest"
  shows "parse_nat (show_digits n @ rest) = Some (n, rest)"
proof -
  note p = show_digits_props [OF assms(1)]
  have r: "rest = [] \<or> \<not> is_digit (hd rest)"
    using assms(2) by (auto simp: ok_rest_def is_digit_def)
  have t: "takeWhile is_digit (show_digits n @ rest) = show_digits n"
          "dropWhile is_digit (show_digits n @ rest) = rest"
    using takeWhile_append_stop [of "show_digits n" is_digit rest] p r by simp_all
  have z: "\<not> (1 < length (show_digits n) \<and> hd (show_digits n) = CHR ''0'')"
    using p by auto
  have e: "\<not> (rest \<noteq> [] \<and> hd rest \<in> set ''.eE'')"
    using assms(2) by (auto simp: ok_rest_def)
  show ?thesis
    unfolding parse_nat_def t Let_def using p z e by simp
qed

lemma hex_value_hex_digit: "k < 16 \<Longrightarrow> hex_value (hex_digit k) = Some k"
  by (simp add: hex_value_def hex_digit_def Let_def)

lemma unicode_escape_control:
  assumes "(of_char c :: nat) < 32"
  shows "unicode_escape (CHR ''0'') (CHR ''0'') (hex_digit (of_char c div 16)) (hex_digit (of_char c mod 16))
           = Some c"
proof -
  have 1: "hex_value (hex_digit (of_char c div 16)) = Some (of_char c div 16)"
    using assms by (intro hex_value_hex_digit) simp
  have 2: "hex_value (hex_digit (of_char c mod 16)) = Some (of_char c mod 16)"
    by (intro hex_value_hex_digit) simp
  have 3: "hex_value (CHR ''0'') = Some 0" by (simp add: hex_value_def Let_def)
  have 4: "(of_char c :: nat) div 16 < 8" using assms by simp
  have 5: "char_of (16 * ((of_char c :: nat) div 16) + of_char c mod 16) = c" by simp
  show ?thesis unfolding unicode_escape_def 1 2 3 using 4 5 by simp
qed

lemma parse_string_quote_char:
  "parse_string (quote_char c @ t)
     = (case parse_string t of None \<Rightarrow> None | Some (str, r) \<Rightarrow> Some (c # str, r))"
proof -
  consider (q) "c = CHR 0x22" | (b) "c = CHR 0x5C" | (bs) "c = CHR 0x08" | (ff) "c = CHR 0x0C"
    | (nl) "c = CHR 0x0A" | (cr) "c = CHR 0x0D" | (tab) "c = CHR 0x09"
    | (ctl) "c \<noteq> CHR 0x22" "c \<noteq> CHR 0x5C" "c \<noteq> CHR 0x08" "c \<noteq> CHR 0x0C" "c \<noteq> CHR 0x0A"
        "c \<noteq> CHR 0x0D" "c \<noteq> CHR 0x09" "(of_char c :: nat) < 32"
    | (plain) "c \<noteq> CHR 0x22" "c \<noteq> CHR 0x5C" "\<not> (of_char c :: nat) < 32"
        "c \<noteq> CHR 0x08" "c \<noteq> CHR 0x0C" "c \<noteq> CHR 0x0A" "c \<noteq> CHR 0x0D" "c \<noteq> CHR 0x09"
    by blast
  then show ?thesis
  proof cases
    case ctl
    then show ?thesis
      using unicode_escape_control [of c]
      by (simp add: quote_char_def)
  next
    case plain
    then show ?thesis by (simp add: quote_char_def)
  qed (auto simp: quote_char_def unescape_def)
qed

lemma parse_string_quoted:
  "parse_string (concat (map quote_char s) @ CHR 0x22 # rest) = Some (s, rest)"
  by (induction s) (simp_all add: parse_string_quote_char)

lemma strip_prefix_Cons [simp]:
  "strip_prefix [c] (d # s) = (if d = c then Some s else None)"
  "strip_prefix [c] [] = None"
  by (auto simp: strip_prefix_def)

lemma strip_prefix_append [simp]: "strip_prefix w (w @ s) = Some s"
  by (simp add: strip_prefix_def)

lemma skip_ws_simps [simp]:
  "skip_ws [] = []"
  "skip_ws (CHR ''\<newline>'' # s) = skip_ws s"
  "skip_ws (CHR '' '' # s) = skip_ws s"
  "skip_ws (replicate k (CHR '' '') @ s) = skip_ws s"
  "\<not> is_ws c \<Longrightarrow> skip_ws (c # s) = c # s"
proof -
  show "skip_ws (replicate k (CHR '' '') @ s) = skip_ws s"
    by (induction k) (simp_all add: skip_ws_def is_ws_def)
qed (simp_all add: skip_ws_def is_ws_def)

lemma is_ws_simps [simp]:
  "\<not> is_ws (CHR '','')" "\<not> is_ws (CHR '':'')" "\<not> is_ws (CHR 0x22)"
  "\<not> is_ws (CHR ''}'')" "\<not> is_ws (CHR '']'')"
  by (simp_all add: is_ws_def)

lemma is_digit_value_start: "is_digit c \<Longrightarrow> value_start c"
  by (auto simp: is_digit_def value_start_def is_ws_def)

lemma stringify_start: "\<exists>c cs. stringify i v = c # cs \<and> value_start c"
proof (cases v)
  case (JNumber k)
  show ?thesis
  proof (cases "k < 0")
    case True
    then show ?thesis using JNumber by (simp add: show_int_def value_start_def is_ws_def)
  next
    case False
    then have "0 \<le> k" by simp
    from show_digits_props [OF this] obtain c cs where "show_digits k = c # cs" "is_digit c"
      by (cases "show_digits k") auto
    then show ?thesis using JNumber False by (simp add: show_int_def is_digit_value_start)
  qed
qed (auto simp: value_start_def is_ws_def quote_def)

lemma skip_ws_stringify [simp]: "skip_ws (stringify i v @ s) = stringify i v @ s"
  using stringify_start [of i v] by (auto simp: value_start_def)

lemma parse_value_digit:
  "is_digit c \<Longrightarrow> parse_value (Suc n) (c # cs)
     = (case parse_nat (c # cs) of None \<Rightarrow> None | Some (m, r) \<Rightarrow> Some (JNumber m, r))"
  by (auto simp: is_digit_def)

lemma parse_value_number:
  assumes "ok_rest rest"
  shows "parse_value (Suc n) (show_int k @ rest) = Some (JNumber k, rest)"
proof (cases "k < 0")
  case True
  then have "parse_nat (show_digits (- k) @ rest) = Some (- k, rest)"
    using assms by (intro parse_nat_show_digits) simp_all
  then show ?thesis using True by (simp add: show_int_def)
next
  case False
  then have k: "0 \<le> k" by simp
  from show_digits_props [OF this] obtain c cs where c: "show_digits k = c # cs" "is_digit c"
    by (cases "show_digits k") auto
  have "parse_nat (c # cs @ rest) = Some (k, rest)"
    using parse_nat_show_digits [OF k assms] c(1) by simp
  then show ?thesis using False c
    by (simp add: show_int_def parse_value_digit del: parse_value.simps)
qed

lemma parse_value_string:
  "parse_value (Suc n) (quote s @ rest) = Some (JString s, rest)"
  by (simp add: quote_def parse_string_quoted)

lemma parse_value_literals:
  "parse_value (Suc n) (''null'' @ rest) = Some (JNull, rest)"
  "parse_value (Suc n) (''true'' @ rest) = Some (JBool True, rest)"
  "parse_value (Suc n) (''false'' @ rest) = Some (JBool False, rest)"
  by (simp_all add: is_digit_def strip_prefix_def)

lemma set_property_new: "k \<notin> fst ` set acc \<Longrightarrow> set_property k v acc = acc @ [(k, v)]"
  by (induction acc) auto

lemma reads_backD:
  "reads_back v \<Longrightarrow> ok_rest rest \<Longrightarrow> length (stringify i v) \<le> n \<Longrightarrow>
   parse_value n (stringify i v @ rest) = Some (v, rest)"
  by (simp add: reads_back_def)

lemma parse_elements_join:
  assumes "\<forall>v \<in> set vs. reads_back v" "vs \<noteq> []"
    "length (join '',\<newline>'' (map (\<lambda>v. replicate i (CHR '' '') @ stringify i v) vs)) < n"
  shows "parse_elements n acc
           (skip_ws (join '',\<newline>'' (map (\<lambda>v. replicate i (CHR '' '') @ stringify i v) vs)
                     @ ''\<newline>'' @ replicate j (CHR '' '') @ '']'' @ rest))
         = Some (acc @ vs, rest)"
  using assms
proof (induction vs arbitrary: acc n)
  case Nil
  then show ?case by simp
next
  case (Cons v vs)
  from Cons.prems(3) obtain m where n: "n = Suc m" by (cases n) auto
  have rb: "reads_back v" using Cons.prems(1) by simp
  show ?case
  proof (cases vs)
    case Nil
    have len: "length (stringify i v) \<le> m" using Cons.prems(3) n Nil by simp
    have pv: "parse_value m (stringify i v @ ''\<newline>'' @ replicate j (CHR '' '') @ '']'' @ rest)
               = Some (v, ''\<newline>'' @ replicate j (CHR '' '') @ '']'' @ rest)"
      by (rule reads_backD [OF rb _ len]) simp
    show ?thesis using pv unfolding n Nil by simp
  next
    case (Cons w ws)
    let ?T = "join '',\<newline>'' (map (\<lambda>v. replicate i (CHR '' '') @ stringify i v) vs)"
    let ?tail = "''\<newline>'' @ replicate j (CHR '' '') @ '']'' @ rest"
    have j: "join '',\<newline>'' (map (\<lambda>v. replicate i (CHR '' '') @ stringify i v) (v # vs))
              = replicate i (CHR '' '') @ stringify i v @ '',\<newline>'' @ ?T"
      unfolding Cons by simp
    have len: "length (stringify i v) \<le> m" "length ?T < m"
      using Cons.prems(3) unfolding j n by simp_all
    have pv: "parse_value m (stringify i v @ '',\<newline>'' @ ?T @ ?tail)
               = Some (v, '',\<newline>'' @ ?T @ ?tail)"
      by (rule reads_backD [OF rb _ len(1)]) simp
    have ih: "parse_elements m (acc @ [v]) (skip_ws (?T @ ?tail)) = Some ((acc @ [v]) @ vs, rest)"
      using Cons.prems(1) len(2) Cons by (intro Cons.IH) simp_all
    show ?thesis using pv ih unfolding j n by simp
  qed
qed

lemma parse_members_join:
  assumes "\<forall>kv \<in> set kvs. reads_back (snd kv)" "kvs \<noteq> []"
    "distinct (map fst (acc @ kvs))"
    "length (join '',\<newline>'' (map (\<lambda>kv. replicate i (CHR '' '') @ quote (fst kv) @ '': ''
                          @ stringify i (snd kv)) kvs)) < n"
  shows "parse_members n acc
           (skip_ws (join '',\<newline>'' (map (\<lambda>kv. replicate i (CHR '' '') @ quote (fst kv) @ '': ''
                          @ stringify i (snd kv)) kvs)
                     @ ''\<newline>'' @ replicate j (CHR '' '') @ ''}'' @ rest))
         = Some (acc @ kvs, rest)"
  using assms
proof (induction kvs arbitrary: acc n)
  case Nil
  then show ?case by simp
next
  case (Cons kv kvs)
  obtain k v where kv: "kv = (k, v)" by (cases kv)
  from Cons.prems(4) obtain m where n: "n = Suc m" by (cases n) auto
  have rb: "reads_back v" using Cons.prems(1) kv by simp
  have new: "set_property k v acc = acc @ [(k, v)]"
    using Cons.prems(3) kv by (intro set_property_new) auto
  have ps: "parse_string (concat (map quote_char k) @ CHR 0x22 # t) = Some (k, t)" for t
    by (rule parse_string_quoted)
  show ?case
  proof (cases kvs)
    case Nil
    have len: "length (stringify i v) \<le> m" using Cons.prems(4) n Nil kv by simp
    have pv: "parse_value m (stringify i v @ ''\<newline>'' @ replicate j (CHR '' '') @ ''}'' @ rest)
               = Some (v, ''\<newline>'' @ replicate j (CHR '' '') @ ''}'' @ rest)"
      by (rule reads_backD [OF rb _ len]) simp
    show ?thesis using pv ps new unfolding n Nil kv by (simp add: quote_def)
  next
    case (Cons kw kws)
    let ?T = "join '',\<newline>'' (map (\<lambda>kv. replicate i (CHR '' '') @ quote (fst kv) @ '': ''
                          @ stringify i (snd kv)) kvs)"
    let ?tail = "''\<newline>'' @ replicate j (CHR '' '') @ ''}'' @ rest"
    have j: "join '',\<newline>'' (map (\<lambda>kv. replicate i (CHR '' '') @ quote (fst kv) @ '': ''
                          @ stringify i (snd kv)) ((k, v) # kvs))
              = replicate i (CHR '' '') @ quote k @ '': '' @ stringify i v @ '',\<newline>'' @ ?T"
      unfolding Cons by simp
    have len: "length (stringify i v) \<le> m" "length ?T < m"
      using Cons.prems(4) unfolding kv j n by simp_all
    have pv: "parse_value m (stringify i v @ '',\<newline>'' @ ?T @ ?tail)
               = Some (v, '',\<newline>'' @ ?T @ ?tail)"
      by (rule reads_backD [OF rb _ len(1)]) simp
    have d: "distinct (map fst ((acc @ [(k, v)]) @ kvs))" using Cons.prems(3) kv by simp
    have ih: "parse_members m (acc @ [(k, v)]) (skip_ws (?T @ ?tail))
                = Some ((acc @ [(k, v)]) @ kvs, rest)"
      using Cons.prems(1) len(2) Cons d by (intro Cons.IH) simp_all
    show ?thesis using pv ih ps new unfolding kv j n by (simp add: quote_def)
  qed
qed

lemma reads_back_wf: "wf_json v \<Longrightarrow> reads_back v"
proof (induction v)
  case JNull
  show ?case unfolding reads_back_def
  proof (intro allI impI)
    fix i n rest assume "length (stringify i JNull) \<le> n"
    then obtain m where "n = Suc m" by (cases n) auto
    then show "parse_value n (stringify i JNull @ rest) = Some (JNull, rest)"
      using parse_value_literals(1) [of m rest] by simp
  qed
next
  case (JBool b)
  show ?case unfolding reads_back_def
  proof (intro allI impI)
    fix i n rest assume "length (stringify i (JBool b)) \<le> n"
    then obtain m where "n = Suc m" by (cases n) (auto split: if_splits)
    then show "parse_value n (stringify i (JBool b) @ rest) = Some (JBool b, rest)"
      using parse_value_literals(2,3) [of m rest] by (cases b) simp_all
  qed
next
  case (JNumber k)
  show ?case unfolding reads_back_def
  proof (intro allI impI)
    fix i n rest assume r: "ok_rest rest" and "length (stringify i (JNumber k)) \<le> n"
    moreover have "stringify i (JNumber k) \<noteq> []" using stringify_start [of i "JNumber k"] by auto
    ultimately obtain m where "n = Suc m" by (cases n) auto
    then show "parse_value n (stringify i (JNumber k) @ rest) = Some (JNumber k, rest)"
      using parse_value_number [OF r, of m k] by simp
  qed
next
  case (JString s)
  show ?case unfolding reads_back_def
  proof (intro allI impI)
    fix i n rest assume "length (stringify i (JString s)) \<le> n"
    then obtain m where "n = Suc m" by (cases n) (auto simp: quote_def)
    then show "parse_value n (stringify i (JString s) @ rest) = Some (JString s, rest)"
      using parse_value_string [of m s rest] by simp
  qed
next
  case (JArray vs)
  have rb: "\<forall>v \<in> set vs. reads_back v" using JArray by simp
  show ?case unfolding reads_back_def
  proof (intro allI impI)
    fix i n rest assume len: "length (stringify i (JArray vs)) \<le> n"
    show "parse_value n (stringify i (JArray vs) @ rest) = Some (JArray vs, rest)"
    proof (cases "vs = []")
      case True
      from len True obtain m where "n = Suc m" by (cases n) auto
      then show ?thesis using True by simp
    next
      case False
      let ?T = "join '',\<newline>'' (map (\<lambda>v. replicate (i + 2) (CHR '' '') @ stringify (i + 2) v) vs)"
      from len False obtain m where n: "n = Suc m" by (cases n) auto
      have l: "length ?T < m" using len False n by simp
      obtain v ws where vs: "vs = v # ws" using False by (cases vs) auto
      obtain c cs where c: "stringify (i + 2) v = c # cs" "value_start c"
        using stringify_start by blast
      have st: "\<exists>t. skip_ws (?T @ ''\<newline>'' @ replicate i (CHR '' '') @ '']'' @ rest) = c # t"
        using c unfolding vs by (cases ws) (simp_all add: value_start_def)
      have pe: "parse_elements m [] (skip_ws (?T @ ''\<newline>'' @ replicate i (CHR '' '') @ '']'' @ rest))
                 = Some ([] @ vs, rest)"
        by (rule parse_elements_join [OF rb False l])
      from st obtain t where t: "skip_ws (?T @ ''\<newline>'' @ replicate i (CHR '' '') @ '']'' @ rest) = c # t"
        by blast
      have ne: "c \<noteq> CHR '']''" using c(2) by (simp add: value_start_def)
      show ?thesis using False pe ne t unfolding n by simp
    qed
  qed
next
  case (JObject kvs)
  have rb: "\<forall>kv \<in> set kvs. reads_back (snd kv)" using JObject by (auto simp: snds.simps)
  have d: "distinct (map fst ([] @ kvs))" using JObject.prems by simp
  show ?case unfolding reads_back_def
  proof (intro allI impI)
    fix i n rest assume len: "length (stringify i (JObject kvs)) \<le> n"
    show "parse_value n (stringify i (JObject kvs) @ rest) = Some (JObject kvs, rest)"
    proof (cases "kvs = []")
      case True
      from len True obtain m where "n = Suc m" by (cases n) auto
      then show ?thesis using True by simp
    next
      case False
      let ?T = "join '',\<newline>'' (map (\<lambda>kv. replicate (i + 2) (CHR '' '') @ quote (fst kv) @ '': ''
                          @ stringify (i + 2) (snd kv)) kvs)"
      from len False obtain m where n: "n = Suc m" by (cases n) auto
      have l: "length ?T < m" using len False n by simp
      obtain kv ws where kvs: "kvs = kv # ws" using False by (cases kvs) auto
      have st: "\<exists>t. skip_ws (?T @ ''\<newline>'' @ replicate i (CHR '' '') @ ''}'' @ rest) = CHR 0x22 # t"
        unfolding kvs by (cases ws) (simp_all add: quote_def)
      have pm: "parse_members m [] (skip_ws (?T @ ''\<newline>'' @ replicate i (CHR '' '') @ ''}'' @ rest))
                 = Some ([] @ kvs, rest)"
        by (rule parse_members_join [OF rb False d l])
      from st obtain t where t: "skip_ws (?T @ ''\<newline>'' @ replicate i (CHR '' '') @ ''}'' @ rest) = CHR 0x22 # t"
        by blast
      show ?thesis using False pm t unfolding n by simp
    qed
  qed
qed

lemma ref_JSON_roundtrip:
  assumes "wf_json v"
  shows "ref_JSON_parse (ref_JSON_stringify v @ ''\<newline>'') = Inr v"
proof -
  have "parse_value (Suc (length (stringify 0 v @ ''\<newline>''))) (stringify 0 v @ ''\<newline>'')
          = Some (v, ''\<newline>'')"
    by (rule reads_backD [OF reads_back_wf [OF assms]]) simp_all
  then show ?thesis
    by (simp add: ref_JSON_parse_def ref_JSON_stringify_def del: parse_value.simps)
qed

lemma keys_set_property:
  "set (map fst (set_property k v kvs)) = insert k (set (map fst kvs))"
proof (induction kvs)
  case Nil
  then show ?case by simp
next
  case (Cons a kvs)
  obtain k' v' where a: "a = (k', v')" by (cases a)
  have "set (map fst ((k', v') # set_property k v kvs)) = insert k (set (map fst ((k', v') # kvs)))"
    using Cons.IH by (simp add: insert_commute)
  then show ?case unfolding a by (cases "k' = k") (simp_all add: insert_absorb)
qed

lemma distinct_set_property:
  "distinct (map fst kvs) \<Longrightarrow> distinct (map fst (set_property k v kvs))"
proof (induction kvs)
  case Nil
  then show ?case by simp
next
  case (Cons a kvs)
  obtain k' v' where a: "a = (k', v')" by (cases a)
  show ?case
  proof (cases "k' = k")
    case True
    then show ?thesis using Cons.prems a by simp
  next
    case False
    have "k' \<notin> set (map fst (set_property k v kvs))"
      using Cons.prems a False unfolding keys_set_property by simp
    then show ?thesis using Cons a False by simp
  qed
qed

lemma in_set_property:
  "x \<in> set (set_property k v kvs) \<Longrightarrow> x = (k, v) \<or> x \<in> set kvs"
  by (induction kvs) (auto split: if_splits)

lemma wf_set_property:
  "wf_json (JObject kvs) \<Longrightarrow> wf_json v \<Longrightarrow> wf_json (JObject (set_property k v kvs))"
  using distinct_set_property [of kvs k v] in_set_property [of _ k v kvs] by fastforce



section \<open>Loading the state\<close>

lemma loadState_cases:
  "loadState JSON_parse fs p =
     (case readFileSync fs p of
        Inl e \<Rightarrow> Inr DEFAULT_STATE
      | Inr data \<Rightarrow> (case JSON_parse data of Inl e \<Rightarrow> Inr DEFAULT_STATE | Inr v \<Rightarrow> Inr v))"
  by (simp add: loadState_def try_catch_def structuredClone_def split: sum.splits)

lemma readFileSync_written:
  "p \<noteq> [] \<Longrightarrow> \<not> readRefused fs p \<Longrightarrow>
   readFileSync (fs\<lparr>entries := es(p \<mapsto> File data)\<rparr>) p = Inr data"
  by (simp add: readFileSync_def isDirectory_def)

lemma exampleState_roundtrip:
  "ref_JSON_parse (ref_JSON_stringify exampleState @ ''\<newline>'') = Inr exampleState"
  by (rule ref_JSON_roundtrip) (simp add: exampleState_def)


text \<open>
  C1, as amended. \<^verbatim>\<open>loadState\<close> never throws, for every path, file system and parser.
  When the file cannot be read (it is missing, or the path is a directory) and when its
  text is not JSON, the result is the default state
  \<^verbatim>\<open>{ signers: {}, lockedThreads: {} }\<close>, which has the shape of a board state. When
  the text is JSON, the result is the value it parses to, whatever its shape.
\<close>

theorem loadState_never_throws:
  "(\<exists>v. loadState JSON_parse fs p = Inr v)
   \<and> ((\<exists>e. readFileSync fs p = Inl e) \<longrightarrow> loadState JSON_parse fs p = Inr DEFAULT_STATE)
   \<and> ((\<exists>data e. readFileSync fs p = Inr data \<and> JSON_parse data = Inl e)
        \<longrightarrow> loadState JSON_parse fs p = Inr DEFAULT_STATE)
   \<and> ((\<exists>data. readFileSync fs p = Inr data \<and> JSON_parse data = Inr v)
        \<longrightarrow> loadState JSON_parse fs p = Inr v)
   \<and> isArchiverState DEFAULT_STATE"
proof (intro conjI impI)
  show "\<exists>v. loadState JSON_parse fs p = Inr v"
    by (simp add: loadState_cases split: sum.splits)
  show "loadState JSON_parse fs p = Inr DEFAULT_STATE" if "\<exists>e. readFileSync fs p = Inl e"
    using that by (auto simp: loadState_cases)
  show "loadState JSON_parse fs p = Inr DEFAULT_STATE"
    if "\<exists>data e. readFileSync fs p = Inr data \<and> JSON_parse data = Inl e"
    using that by (auto simp: loadState_cases)
  show "loadState JSON_parse fs p = Inr v"
    if "\<exists>data. readFileSync fs p = Inr data \<and> JSON_parse data = Inr v"
    using that by (auto simp: loadState_cases)
  show "isArchiverState DEFAULT_STATE"
    by (simp add: isArchiverState_def DEFAULT_STATE_def)
qed

text \<open>
  The three cases on files: no file, a file holding \<^verbatim>\<open>not json\<close> (state.test.ts), and
  a file holding the text of a state.
\<close>

theorem loadState_never_throws_witness:
  \<open>loadState ref_JSON_parse (fsOf Map.empty) [''state.json''] = Inr DEFAULT_STATE
   \<and> loadState ref_JSON_parse (fsOf (Map.empty([''state.json''] \<mapsto> File ''not json''))) [''state.json'']
       = Inr DEFAULT_STATE
   \<and> loadState ref_JSON_parse
        (fsOf (Map.empty([''state.json''] \<mapsto> File (ref_JSON_stringify exampleState @ ''\<newline>''))))
        [''state.json''] = Inr exampleState\<close>
proof -
  have 1: "\<exists>e. readFileSync (fsOf Map.empty) [''state.json''] = Inl e"
    by (simp add: readFileSync_def isDirectory_def fsOf_def)
  have 2: \<open>\<exists>data e. readFileSync (fsOf (Map.empty([''state.json''] \<mapsto> File ''not json''))) [''state.json''] = Inr data
            \<and> ref_JSON_parse data = Inl e\<close>
    by (simp add: readFileSync_def isDirectory_def fsOf_def ref_JSON_parse_def is_ws_def
        strip_prefix_def is_digit_def)
  have 3: "\<exists>data. readFileSync (fsOf (Map.empty([''state.json''] \<mapsto> File (ref_JSON_stringify exampleState @ ''\<newline>''))))
                    [''state.json''] = Inr data
            \<and> ref_JSON_parse data = Inr exampleState"
    using exampleState_roundtrip by (simp add: readFileSync_def isDirectory_def fsOf_def)
  note t = loadState_never_throws [where JSON_parse = ref_JSON_parse and p = "[''state.json'']"]
  have a: "loadState ref_JSON_parse (fsOf Map.empty) [''state.json''] = Inr DEFAULT_STATE"
    using 1 t [where fs = "fsOf Map.empty"] by blast
  have b: \<open>loadState ref_JSON_parse (fsOf (Map.empty([''state.json''] \<mapsto> File ''not json''))) [''state.json'']
       = Inr DEFAULT_STATE\<close>
    using 2 t [where fs = "fsOf (Map.empty([''state.json''] \<mapsto> File ''not json''))"] by blast
  have c: "loadState ref_JSON_parse
        (fsOf (Map.empty([''state.json''] \<mapsto> File (ref_JSON_stringify exampleState @ ''\<newline>''))))
        [''state.json''] = Inr exampleState"
    using 3 t [where fs = "fsOf (Map.empty([''state.json''] \<mapsto> File (ref_JSON_stringify exampleState @ ''\<newline>'')))"
                 and v = exampleState] by blast
  show ?thesis using a b c by (intro conjI)
qed

text \<open>
  The claim as stated fails on a state file that holds \<^verbatim>\<open>{}\<close>: the text is JSON,
  so it is returned as parsed, and the empty object has neither \<^verbatim>\<open>signers\<close> nor
  \<^verbatim>\<open>lockedThreads\<close>.
\<close>

theorem loadState_shape_counterexample:
  \<open>loadState ref_JSON_parse (fsOf (Map.empty([''state.json''] \<mapsto> File ''{}''))) [''state.json'']
     = Inr (JObject [])
   \<and> \<not> isArchiverState (JObject [])\<close>
  by (simp add: loadState_cases readFileSync_def isDirectory_def fsOf_def ref_JSON_parse_def
      is_ws_def isArchiverState_def)

section \<open>Saving the state\<close>

lemma mkdirs_ok:
  "\<forall>q \<in> set ps. (\<forall>d. entries fs q \<noteq> Some (File d)) \<and> (entries fs q = None \<longrightarrow> \<not> writeRefused fs q) \<Longrightarrow>
   \<exists>es. mkdirs fs ps = Inr (fs\<lparr>entries := es\<rparr>) \<and> (\<forall>q \<in> set ps. es q = Some Dir)
         \<and> (\<forall>q. q \<notin> set ps \<longrightarrow> es q = entries fs q)"
proof (induction ps arbitrary: fs)
  case Nil
  have "mkdirs fs [] = Inr (fs\<lparr>entries := entries fs\<rparr>)" by simp
  then show ?case by (intro exI [of _ "entries fs"]) simp
next
  case (Cons a ps)
  show ?case
  proof (cases "entries fs a")
    case None
    let ?fs = "fs\<lparr>entries := (entries fs)(a \<mapsto> Dir)\<rparr>"
    have w: "\<not> writeRefused fs a" using Cons.prems None by simp
    have "\<forall>q \<in> set ps. (\<forall>d. entries ?fs q \<noteq> Some (File d))
            \<and> (entries ?fs q = None \<longrightarrow> \<not> writeRefused ?fs q)"
      using Cons.prems by auto
    from Cons.IH [OF this] obtain es where
      f: "mkdirs ?fs ps = Inr (?fs\<lparr>entries := es\<rparr>)" "\<forall>q \<in> set ps. es q = Some Dir"
         "\<forall>q. q \<notin> set ps \<longrightarrow> es q = entries ?fs q"
      by blast
    have "es a = Some Dir" using f(2,3) by (cases "a \<in> set ps") auto
    moreover have "mkdirs fs (a # ps) = Inr (fs\<lparr>entries := es\<rparr>)"
      using None w f(1) by simp
    ultimately show ?thesis using f(2,3) by auto
  next
    case (Some n)
    then have n: "n = Dir" using Cons.prems by (cases n) auto
    have "\<forall>q \<in> set ps. (\<forall>d. entries fs q \<noteq> Some (File d))
            \<and> (entries fs q = None \<longrightarrow> \<not> writeRefused fs q)"
      using Cons.prems by auto
    from Cons.IH [OF this] obtain es where
      f: "mkdirs fs ps = Inr (fs\<lparr>entries := es\<rparr>)" "\<forall>q \<in> set ps. es q = Some Dir"
         "\<forall>q. q \<notin> set ps \<longrightarrow> es q = entries fs q"
      by blast
    have "es a = Some Dir" using f(2,3) Some n by (cases "a \<in> set ps") auto
    moreover have "mkdirs fs (a # ps) = Inr (fs\<lparr>entries := es\<rparr>)"
      using Some n f(1) by simp
    ultimately show ?thesis using f(2,3) by auto
  qed
qed

lemma path_not_own_ancestor: "p \<noteq> [] \<Longrightarrow> p \<notin> set (tl (prefixes (dirname p)))"
proof
  assume ne: "p \<noteq> []" and "p \<in> set (tl (prefixes (dirname p)))"
  then have "p \<in> set (prefixes (dirname p))" by (metis list.sel(2) list.set_sel(2))
  then have "prefix p (butlast p)" by (simp add: dirname_def)
  then have "length p \<le> length (butlast p)" by (rule prefix_length_le)
  then show False using ne by (cases p rule: rev_cases) auto
qed

lemma saveState_ok:
  assumes nd: "\<not> isDirectory fs p"
    and anc: "\<forall>q \<in> set (tl (prefixes (dirname p))).
               (\<forall>d. entries fs q \<noteq> Some (File d)) \<and> (entries fs q = None \<longrightarrow> \<not> writeRefused fs q)"
    and wr: "\<not> writeRefused fs p"
  shows "\<exists>es. saveState JSON_stringify fs p state
                 = Inr (fs\<lparr>entries := es(p \<mapsto> File (JSON_stringify state @ ''\<newline>''))\<rparr>)
           \<and> (\<forall>q \<in> set (tl (prefixes (dirname p))). es q = Some Dir)"
proof -
  let ?ps = "tl (prefixes (dirname p))"
  have ne: "p \<noteq> []" and nd': "entries fs p \<noteq> Some Dir" using nd by (auto simp: isDirectory_def)
  from mkdirs_ok [OF anc] obtain es where
    f: "mkdirs fs ?ps = Inr (fs\<lparr>entries := es\<rparr>)" "\<forall>q \<in> set ?ps. es q = Some Dir"
       "\<forall>q. q \<notin> set ?ps \<longrightarrow> es q = entries fs q"
    by blast
  have "es p = entries fs p" using path_not_own_ancestor [OF ne] f(3) by blast
  then have 1: "\<not> isDirectory (fs\<lparr>entries := es\<rparr>) p" using ne nd' by (simp add: isDirectory_def)
  have 2: "isDirectory (fs\<lparr>entries := es\<rparr>) (dirname p)"
  proof (cases "dirname p = []")
    case True
    then show ?thesis by (simp add: isDirectory_def)
  next
    case False
    have "prefixes (dirname p) = [] # ?ps" by (cases "dirname p") simp_all
    moreover have "dirname p \<in> set (prefixes (dirname p))" by simp
    ultimately have "dirname p \<in> set ?ps" using False by (metis set_ConsD)
    then show ?thesis using f(2) by (simp add: isDirectory_def)
  qed
  have "writeFileSync (fs\<lparr>entries := es\<rparr>) p data = Inr (fs\<lparr>entries := es(p \<mapsto> File data)\<rparr>)" for data
    using 1 2 wr by (simp add: writeFileSync_def)
  then show ?thesis
    using f(1,2) by (auto simp: saveState_def mkdirSync_recursive_def)
qed

lemma wf_fold_set_property:
  "wf_json (JObject acc) \<Longrightarrow> \<forall>kv \<in> set kvs. wf_json (snd kv) \<Longrightarrow>
   wf_json (JObject (fold (\<lambda>(k, v). set_property k v) kvs acc))"
proof (induction kvs arbitrary: acc)
  case Nil
  then show ?case by simp
next
  case (Cons kv kvs)
  obtain k v where kv: "kv = (k, v)" by (cases kv)
  have "wf_json (JObject (set_property k v acc))"
    using Cons.prems kv by (intro wf_set_property) simp_all
  then show ?case using Cons kv by simp
qed

lemma wf_object_of: "\<forall>kv \<in> set kvs. wf_json (snd kv) \<Longrightarrow> wf_json (object_of kvs)"
  unfolding object_of_def by (rule wf_fold_set_property) simp_all

lemma wf_archiverState: "wf_json (archiverState signers lockedThreads lock)"
proof -
  have 1: "wf_json (object_of (map (\<lambda>(a, k). (a, JObject [(''privateKey'', JString k)])) signers))"
    by (rule wf_object_of) auto
  have 2: "wf_json (object_of (map (\<lambda>(c, t). (c, JObject [(''lockTimestamp'', JNumber t)])) lockedThreads))"
    by (rule wf_object_of) auto
  show ?thesis using 1 2 by (cases lock) (simp_all add: archiverState_def)
qed

lemma in_fold_set_property:
  "x \<in> set (fold (\<lambda>(k, v). set_property k v) kvs acc) \<Longrightarrow> x \<in> set acc \<or> x \<in> set kvs"
proof (induction kvs arbitrary: acc)
  case Nil
  then show ?case by simp
next
  case (Cons kv kvs)
  obtain k v where kv: "kv = (k, v)" by (cases kv)
  from Cons.prems have "x \<in> set (fold (\<lambda>(k, v). set_property k v) kvs (set_property k v acc))"
    by (simp add: kv)
  from Cons.IH [OF this] show ?case using in_set_property [of x k v acc] kv by auto
qed

text \<open>Every state value has the shape of a board state, and holds each key once.\<close>

lemma archiverState_shape: "isArchiverState (archiverState signers lockedThreads lock)"
proof -
  have 1: "list_all (\<lambda>(k, s). isSigner s)
             (fold (\<lambda>(k, v). set_property k v)
                (map (\<lambda>(a, k). (a, JObject [(''privateKey'', JString k)])) signers) [])"
    unfolding list_all_iff by (auto dest!: in_fold_set_property simp: isSigner_def)
  have 2: "list_all (\<lambda>(k, t). isLockedThread t)
             (fold (\<lambda>(k, v). set_property k v)
                (map (\<lambda>(c, t). (c, JObject [(''lockTimestamp'', JNumber t)])) lockedThreads) [])"
    unfolding list_all_iff by (auto dest!: in_fold_set_property simp: isLockedThread_def)
  show ?thesis using 1 2
    by (cases lock) (simp_all add: isArchiverState_def archiverState_def object_of_def isLock_def)
qed

lemma exampleState_is_state:
  "exampleState = archiverState [(''board.eth'', ''existing-key'')] [(''QmTest'', 1000)] None"
  by (simp add: exampleState_def archiverState_def object_of_def)

text \<open>
  C9, as amended. Take a path that is not a directory, that has no regular file among
  its ancestors, whose missing ancestors the system lets the process create, and that
  the system lets the process write and read. Then for every state value
  \<^verbatim>\<open>saveState\<close> succeeds, whether or not the parent directories exist, every ancestor
  of the path is a directory afterwards, and \<^verbatim>\<open>loadState\<close> on the same path returns
  the saved state.
\<close>

theorem saveState_loadState:
  assumes "\<not> isDirectory fs p"
    and "\<forall>q \<in> set (tl (prefixes (dirname p))). \<forall>d. entries fs q \<noteq> Some (File d)"
    and "\<forall>q \<in> set (tl (prefixes (dirname p))). entries fs q = None \<longrightarrow> \<not> writeRefused fs q"
    and "\<not> writeRefused fs p"
    and "\<not> readRefused fs p"
  shows "\<exists>fs'. saveState ref_JSON_stringify fs p (archiverState signers lockedThreads lock) = Inr fs'
           \<and> loadState ref_JSON_parse fs' p = Inr (archiverState signers lockedThreads lock)
           \<and> (\<forall>q \<in> set (tl (prefixes (dirname p))). entries fs' q = Some Dir)"
proof -
  let ?st = "archiverState signers lockedThreads lock"
  have anc: "\<forall>q \<in> set (tl (prefixes (dirname p))).
               (\<forall>d. entries fs q \<noteq> Some (File d)) \<and> (entries fs q = None \<longrightarrow> \<not> writeRefused fs q)"
    using assms(2,3) by blast
  from saveState_ok [OF assms(1) anc assms(4), of ref_JSON_stringify ?st] obtain es where
    f: "saveState ref_JSON_stringify fs p ?st
          = Inr (fs\<lparr>entries := es(p \<mapsto> File (ref_JSON_stringify ?st @ ''\<newline>''))\<rparr>)"
       "\<forall>q \<in> set (tl (prefixes (dirname p))). es q = Some Dir"
    by blast
  have ne: "p \<noteq> []" using assms(1) by (auto simp: isDirectory_def)
  have rt: "ref_JSON_parse (ref_JSON_stringify ?st @ ''\<newline>'') = Inr ?st"
    by (rule ref_JSON_roundtrip [OF wf_archiverState])
  have "loadState ref_JSON_parse (fs\<lparr>entries := es(p \<mapsto> File (ref_JSON_stringify ?st @ ''\<newline>''))\<rparr>) p
          = Inr ?st"
    using ne assms(5) rt by (simp add: loadState_cases readFileSync_written)
  moreover have "\<forall>q \<in> set (tl (prefixes (dirname p))).
      entries (fs\<lparr>entries := es(p \<mapsto> File (ref_JSON_stringify ?st @ ''\<newline>''))\<rparr>) q = Some Dir"
    using f(2) path_not_own_ancestor [OF ne] by auto
  ultimately show ?thesis using f(1) by blast
qed

text \<open>
  Saving to \<^verbatim>\<open>a/b/c/state.json\<close> in an empty file system (state.test.ts,
  auto-creates missing parent directories) and loading it back.
\<close>

theorem saveState_loadState_witness:
  "\<exists>fs'. saveState ref_JSON_stringify (fsOf Map.empty) [''a'', ''b'', ''c'', ''state.json'']
            (archiverState [(''board.eth'', ''existing-key'')] [(''QmTest'', 1000)] None) = Inr fs'
         \<and> loadState ref_JSON_parse fs' [''a'', ''b'', ''c'', ''state.json'']
            = Inr (archiverState [(''board.eth'', ''existing-key'')] [(''QmTest'', 1000)] None)
         \<and> entries fs' [''a''] = Some Dir \<and> entries fs' [''a'', ''b''] = Some Dir
         \<and> entries fs' [''a'', ''b'', ''c''] = Some Dir"
proof -
  let ?p = "[''a'', ''b'', ''c'', ''state.json'']"
  let ?st = "archiverState [(''board.eth'', ''existing-key'')] [(''QmTest'', 1000)] None"
  have 1: "\<not> isDirectory (fsOf Map.empty) ?p" by (simp add: isDirectory_def fsOf_def)
  have 2: "\<forall>q \<in> set (tl (prefixes (dirname ?p))). \<forall>d. entries (fsOf Map.empty) q \<noteq> Some (File d)"
    by (simp add: fsOf_def)
  have 3: "\<forall>q \<in> set (tl (prefixes (dirname ?p))).
             entries (fsOf Map.empty) q = None \<longrightarrow> \<not> writeRefused (fsOf Map.empty) q"
    by (simp add: fsOf_def)
  have 4: "\<not> writeRefused (fsOf Map.empty) ?p" "\<not> readRefused (fsOf Map.empty) ?p"
    by (simp_all add: fsOf_def)
  have d: "set (tl (prefixes (dirname ?p))) = {[''a''], [''a'', ''b''], [''a'', ''b'', ''c'']}"
    by (simp add: dirname_def insert_commute)
  have "\<exists>fs'. saveState ref_JSON_stringify (fsOf Map.empty) ?p ?st = Inr fs'
           \<and> loadState ref_JSON_parse fs' ?p = Inr ?st
           \<and> (\<forall>q \<in> set (tl (prefixes (dirname ?p))). entries fs' q = Some Dir)"
    by (rule saveState_loadState [OF 1 2 3 4])
  then show ?thesis unfolding d by fastforce
qed

text \<open>
  The claim as stated, for every path, fails in each of these cases. A regular file
  stands at \<^verbatim>\<open>a\<close>: saving to \<^verbatim>\<open>a/state.json\<close> throws from \<^verbatim>\<open>mkdirSync\<close>, and
  loading the path afterwards gives the default state, not the one passed in. The path
  is a directory: \<^verbatim>\<open>writeFileSync\<close> throws. The system refuses to write the file, or
  to create its parent: the call throws. The system refuses to read the file:
  \<^verbatim>\<open>saveState\<close> succeeds and \<^verbatim>\<open>loadState\<close> gives the default state.
\<close>

theorem saveState_counterexample:
  "saveState ref_JSON_stringify (fsOf (Map.empty([''a''] \<mapsto> File ''x''))) [''a'', ''state.json'']
      exampleState = Inl EEXIST
   \<and> loadState ref_JSON_parse (fsOf (Map.empty([''a''] \<mapsto> File ''x''))) [''a'', ''state.json'']
      = Inr DEFAULT_STATE
   \<and> exampleState \<noteq> DEFAULT_STATE
   \<and> saveState ref_JSON_stringify (fsOf (Map.empty([''state.json''] \<mapsto> Dir))) [''state.json'']
      exampleState = Inl EISDIR
   \<and> saveState ref_JSON_stringify ((fsOf Map.empty)\<lparr>writeRefused := (\<lambda>q. q = [''state.json''])\<rparr>)
      [''state.json''] exampleState = Inl EACCES
   \<and> saveState ref_JSON_stringify ((fsOf Map.empty)\<lparr>writeRefused := (\<lambda>q. q = [''a''])\<rparr>)
      [''a'', ''state.json''] exampleState = Inl EACCES
   \<and> (case saveState ref_JSON_stringify ((fsOf Map.empty)\<lparr>readRefused := (\<lambda>q. q = [''state.json''])\<rparr>)
              [''state.json''] exampleState of
         Inl e \<Rightarrow> False
       | Inr fs' \<Rightarrow> loadState ref_JSON_parse fs' [''state.json''] = Inr DEFAULT_STATE)"
proof (intro conjI)
  show "saveState ref_JSON_stringify (fsOf (Map.empty([''a''] \<mapsto> File ''x''))) [''a'', ''state.json'']
      exampleState = Inl EEXIST"
    by (simp add: saveState_def mkdirSync_recursive_def dirname_def fsOf_def)
  show "loadState ref_JSON_parse (fsOf (Map.empty([''a''] \<mapsto> File ''x''))) [''a'', ''state.json'']
      = Inr DEFAULT_STATE"
    by (simp add: loadState_cases readFileSync_def isDirectory_def fsOf_def)
  show "exampleState \<noteq> DEFAULT_STATE"
    by (simp add: exampleState_def DEFAULT_STATE_def)
  show "saveState ref_JSON_stringify (fsOf (Map.empty([''state.json''] \<mapsto> Dir))) [''state.json'']
      exampleState = Inl EISDIR"
    by (simp add: saveState_def mkdirSync_recursive_def dirname_def fsOf_def writeFileSync_def
        isDirectory_def)
  show "saveState ref_JSON_stringify ((fsOf Map.empty)\<lparr>writeRefused := (\<lambda>q. q = [''state.json''])\<rparr>)
      [''state.json''] exampleState = Inl EACCES"
    by (simp add: saveState_def mkdirSync_recursive_def dirname_def fsOf_def writeFileSync_def
        isDirectory_def)
  show "saveState ref_JSON_stringify ((fsOf Map.empty)\<lparr>writeRefused := (\<lambda>q. q = [''a''])\<rparr>)
      [''a'', ''state.json''] exampleState = Inl EACCES"
    by (simp add: saveState_def mkdirSync_recursive_def dirname_def fsOf_def)
  show "case saveState ref_JSON_stringify ((fsOf Map.empty)\<lparr>readRefused := (\<lambda>q. q = [''state.json''])\<rparr>)
              [''state.json''] exampleState of
         Inl e \<Rightarrow> False
       | Inr fs' \<Rightarrow> loadState ref_JSON_parse fs' [''state.json''] = Inr DEFAULT_STATE"
    by (simp add: saveState_def mkdirSync_recursive_def dirname_def fsOf_def writeFileSync_def
        isDirectory_def loadState_cases readFileSync_def)
qed

section \<open>Acquiring the process lock\<close>








section \<open>Purge timing: the boundary\<close>

text \<open>
  C2. An entry of \<^verbatim>\<open>lockedThreads\<close> is a purge candidate exactly when
  \<^verbatim>\<open>now - lockTimestamp > archivePurgeSeconds\<close>, strictly: an entry whose age equals
  the threshold is not a candidate, and one whose age is one second more is.
\<close>

theorem toPurge_strict:
  "((c, ts) \<in> set (toPurge lockedThreads now archivePurgeSeconds)) =
     ((c, ts) \<in> set lockedThreads \<and> now - ts > archivePurgeSeconds)
   \<and> (c, now - archivePurgeSeconds) \<notin> set (toPurge lockedThreads now archivePurgeSeconds)
   \<and> ((c, now - archivePurgeSeconds - 1) \<in> set (toPurge lockedThreads now archivePurgeSeconds)) =
     ((c, now - archivePurgeSeconds - 1) \<in> set lockedThreads)"
proof (intro conjI)
  show "((c, ts) \<in> set (toPurge lockedThreads now archivePurgeSeconds)) =
     ((c, ts) \<in> set lockedThreads \<and> now - ts > archivePurgeSeconds)"
    by (auto simp: toPurge_def)
  show "(c, now - archivePurgeSeconds) \<notin> set (toPurge lockedThreads now archivePurgeSeconds)"
    by (simp add: toPurge_def)
  show "((c, now - archivePurgeSeconds - 1) \<in> set (toPurge lockedThreads now archivePurgeSeconds)) =
     ((c, now - archivePurgeSeconds - 1) \<in> set lockedThreads)"
    by (auto simp: toPurge_def)
qed

text \<open>
  The purge timing test at \<^verbatim>\<open>now = 1000000\<close>: of an entry locked 200000 seconds ago,
  one locked 1000 seconds ago and one locked exactly 172800 seconds ago, only the first
  is to be purged.
\<close>

lemma toPurge_test:
  "toPurge [(''QmOld'', 1000000 - 200000), (''QmRecent'', 1000000 - 1000),
            (''QmExact'', 1000000 - 172800)] 1000000 172800
     = [(''QmOld'', 800000)]"
  by (simp add: toPurge_def)

section \<open>Lock candidates\<close>

text \<open>
  The evaluator's bump limit rule is the tests' filter run on the threads that are not
  pinned.
\<close>

lemma bumpLimited_atBumpLimit:
  "bumpLimited bumpLimit rankedThreads = atBumpLimit bumpLimit (nonPinned rankedThreads)"
  by (simp add: bumpLimited_def atBumpLimit_def nonPinned_def)

text \<open>
  The bump limit test, and the same filter on a pinned thread: run on the whole list,
  as the test writes it, the filter does not look at \<^verbatim>\<open>pinned\<close>.
\<close>

lemma atBumpLimit_test:
  "map cid (atBumpLimit 300
     [(mockThread ''Qm1'')\<lparr>replyCount := 100\<rparr>, (mockThread ''Qm2'')\<lparr>replyCount := 300\<rparr>,
      (mockThread ''Qm3'')\<lparr>replyCount := 500\<rparr>, (mockThread ''Qm4'')\<lparr>replyCount := 299\<rparr>])
     = [''Qm2'', ''Qm3'']"
  by (simp add: atBumpLimit_def mockThread_def)

lemma atBumpLimit_pinned:
  "map cid (atBumpLimit 300 [(mockThread ''Qm1'')\<lparr>pinned := True, replyCount := 500\<rparr>])
     = [''Qm1'']"
  by (simp add: atBumpLimit_def mockThread_def)




text \<open>
  C5. A pinned thread is never a lock candidate, whatever its rank position and its
  reply count: not under the evaluator's two rules, not in the identifiers the
  evaluator returns (identifiers being unique in a ranking), and not in the tests'
  capacity pipeline.
\<close>

theorem pinned_never_candidate:
  "(\<forall>t \<in> set (lockCandidates capacity bumpLimit lockedThreads rankedThreads). \<not> pinned t)
   \<and> (\<forall>t \<in> set (toLock lockedThreads maxT rankedThreads). \<not> pinned t)
   \<and> (distinct (map cid rankedThreads) \<and> t \<in> set rankedThreads \<and> pinned t \<longrightarrow>
        cid t \<notin> set (lockIds (evaluate perPage pages bumpLimit purgeAfterSeconds now
                                 lockedThreads rankedThreads)))"
proof (intro conjI impI)
  show c: "\<forall>t \<in> set (lockCandidates capacity bumpLimit lockedThreads rankedThreads). \<not> pinned t"
    for capacity
    by (auto simp: lockCandidates_def capacityOverflow_def bumpLimited_def dest: in_set_dropD)
  show "\<forall>t \<in> set (toLock lockedThreads maxT rankedThreads). \<not> pinned t"
    by (auto simp: toLock_def beyondCapacity_def nonPinned_def dest: in_set_dropD)
  assume a: "distinct (map cid rankedThreads) \<and> t \<in> set rankedThreads \<and> pinned t"
  show "cid t \<notin> set (lockIds (evaluate perPage pages bumpLimit purgeAfterSeconds now
                                 lockedThreads rankedThreads))"
  proof
    assume "cid t \<in> set (lockIds (evaluate perPage pages bumpLimit purgeAfterSeconds now
                                 lockedThreads rankedThreads))"
    then obtain u where u: "u \<in> set (lockCandidates (perPage * pages) bumpLimit lockedThreads rankedThreads)"
        "cid u = cid t"
      by (auto simp: evaluate_def)
    have "u \<in> set rankedThreads" using u(1)
      by (auto simp: lockCandidates_def capacityOverflow_def bumpLimited_def dest: in_set_dropD)
    then have "u = t" using a u(2) by (auto simp: distinct_map dest: inj_onD)
    then show False using c [of "perPage * pages"] u(1) a by auto
  qed
qed

text \<open>
  A pinned thread beyond a capacity of one, with 500 replies against a bump limit of
  300: only the thread after it is to be locked.
\<close>

theorem pinned_never_candidate_witness:
  "cid (mockThread ''Qm1''\<lparr>pinned := True, replyCount := 500\<rparr>)
     \<notin> set (lockIds (evaluate 1 1 300 172800 0 []
          [mockThread ''Qm0'', mockThread ''Qm1''\<lparr>pinned := True, replyCount := 500\<rparr>, mockThread ''Qm2'']))
   \<and> lockIds (evaluate 1 1 300 172800 0 []
          [mockThread ''Qm0'', mockThread ''Qm1''\<lparr>pinned := True, replyCount := 500\<rparr>, mockThread ''Qm2''])
       = [''Qm2'']"
proof -
  let ?ts = "[mockThread ''Qm0'', mockThread ''Qm1''\<lparr>pinned := True, replyCount := 500\<rparr>, mockThread ''Qm2'']"
  have h: "distinct (map cid ?ts) \<and> mockThread ''Qm1''\<lparr>pinned := True, replyCount := 500\<rparr> \<in> set ?ts
           \<and> pinned (mockThread ''Qm1''\<lparr>pinned := True, replyCount := 500\<rparr>)"
    by (simp add: mockThread_def)
  have e: "lockIds (evaluate 1 1 300 172800 0 [] ?ts) = [''Qm2'']"
    by (simp add: evaluate_def lockCandidates_def capacityOverflow_def bumpLimited_def mockThread_def)
  show ?thesis
    using h e pinned_never_candidate [where rankedThreads = ?ts
        and t = "mockThread ''Qm1''\<lparr>pinned := True, replyCount := 500\<rparr>"
        and perPage = 1 and pages = 1 and bumpLimit = 300 and purgeAfterSeconds = 172800
        and now = 0 and lockedThreads = "[]"]
    by blast
qed

text \<open>
  C7. An identifier present in \<^verbatim>\<open>lockedThreads\<close> is never a lock candidate: not in
  the identifiers the evaluator returns, not under either of its rules, and not in the
  tests' capacity pipeline, whether or not the thread is beyond capacity or at the bump
  limit.
\<close>

theorem tracked_never_relocked:
  assumes "c \<in> fst ` set lockedThreads"
  shows "c \<notin> set (lockIds (evaluate perPage pages bumpLimit purgeAfterSeconds now
                              lockedThreads rankedThreads))
         \<and> c \<notin> cid ` set (lockCandidates capacity bumpLimit lockedThreads rankedThreads)
         \<and> c \<notin> cid ` set (toLock lockedThreads maxT rankedThreads)"
proof -
  have m: "map_of lockedThreads c \<noteq> None" using assms by (simp add: map_of_eq_None_iff)
  have 1: "c \<notin> cid ` set (lockCandidates capacity bumpLimit lockedThreads rankedThreads)" for capacity
    using m by (auto simp: lockCandidates_def)
  have 2: "c \<notin> cid ` set (toLock lockedThreads maxT rankedThreads)"
    using m by (auto simp: toLock_def truthyEntry_def)
  have 3: "c \<notin> set (lockIds (evaluate perPage pages bumpLimit purgeAfterSeconds now
                              lockedThreads rankedThreads))"
    using 1 [of "perPage * pages"] by (simp add: evaluate_def)
  show ?thesis using 1 2 3 by blast
qed

text \<open>
  The idempotency test: with a capacity of zero and \<^verbatim>\<open>QmAlready\<close> tracked, only
  \<^verbatim>\<open>QmNew\<close> is to be locked, also when \<^verbatim>\<open>QmAlready\<close> is at the bump limit.
\<close>

theorem tracked_never_relocked_witness:
  "''QmAlready'' \<in> fst ` set [(''QmAlready'', 1000::int)]
   \<and> ''QmAlready'' \<notin> set (lockIds (evaluate 0 0 300 172800 2000 [(''QmAlready'', 1000)]
          [mockThread ''QmAlready''\<lparr>replyCount := 400\<rparr>, mockThread ''QmNew'']))
   \<and> toLock [(''QmAlready'', 1000)] 0 [mockThread ''QmAlready'', mockThread ''QmNew'']
       = [mockThread ''QmNew'']"
proof -
  have h: "''QmAlready'' \<in> fst ` set [(''QmAlready'', 1000::int)]" by simp
  have e: "toLock [(''QmAlready'', 1000)] 0 [mockThread ''QmAlready'', mockThread ''QmNew'']
       = [mockThread ''QmNew'']"
    by (simp add: toLock_def truthyEntry_def Object_prototype_names_def beyondCapacity_def
        nonPinned_def mockThread_def)
  show ?thesis
    using h e tracked_never_relocked [OF h, of 0 0 300 172800 2000
        "[mockThread ''QmAlready''\<lparr>replyCount := 400\<rparr>, mockThread ''QmNew'']"]
    by blast
qed

section \<open>The fallback ranking\<close>

lemma compareThreads_le: "(compareThreads a b \<le> 0) = ranksBefore a b"
  by (auto simp: compareThreads_def ranksBefore_def Let_def)

lemma ranksBefore_total: "ranksBefore a b \<or> ranksBefore b a"
  by (auto simp: ranksBefore_def)

lemma ranksBefore_trans: "ranksBefore a b \<Longrightarrow> ranksBefore b c \<Longrightarrow> ranksBefore a c"
  by (auto simp: ranksBefore_def)

lemma set_insert_by: "set (insert_by f x ys) = insert x (set ys)"
  by (induction ys) auto

lemma mset_insert_by: "mset (insert_by f x ys) = add_mset x (mset ys)"
  by (induction ys) auto

lemma mset_Array_sort: "mset (Array_sort f xs) = mset xs"
  by (induction xs) (auto simp: Array_sort_def mset_insert_by)

lemma sorted_insert_by:
  "sorted_wrt ranksBefore ys \<Longrightarrow> sorted_wrt ranksBefore (insert_by compareThreads x ys)"
proof (induction ys)
  case Nil
  then show ?case by simp
next
  case (Cons y ys)
  show ?case
  proof (cases "compareThreads x y \<le> 0")
    case True
    then have "ranksBefore x y" by (simp add: compareThreads_le)
    with Cons.prems show ?thesis using True
      by (auto intro: ranksBefore_trans)
  next
    case False
    then have "ranksBefore y x" using ranksBefore_total [of x y] by (simp add: compareThreads_le)
    with Cons show ?thesis using False
      by (auto simp: set_insert_by)
  qed
qed

lemma sorted_sortThreads: "sorted_wrt ranksBefore (sortThreads xs)"
  by (induction xs) (auto simp: sortThreads_def Array_sort_def sorted_insert_by)

lemma sorted_wrt_unique:
  "sorted_wrt R xs \<Longrightarrow> sorted_wrt R ys \<Longrightarrow> mset xs = mset ys \<Longrightarrow>
   (\<And>a b. a \<in> set xs \<Longrightarrow> b \<in> set xs \<Longrightarrow> R a b \<Longrightarrow> R b a \<Longrightarrow> a = b) \<Longrightarrow> xs = ys"
proof (induction xs arbitrary: ys)
  case Nil
  then show ?case by simp
next
  case (Cons x xs)
  from Cons.prems(3) obtain y ys' where ys: "ys = y # ys'"
    by (cases ys) auto
  have sets: "set (x # xs) = set ys" using Cons.prems(3) by (metis mset_eq_setD)
  have "x = y"
  proof (rule ccontr)
    assume ne: "x \<noteq> y"
    then have "y \<in> set xs" using sets ys by auto
    then have 1: "R x y" using Cons.prems(1) by auto
    have "x \<in> set ys'" using sets ys ne by auto
    then have 2: "R y x" using Cons.prems(2) ys by auto
    have "y \<in> set (x # xs)" using \<open>y \<in> set xs\<close> by simp
    with 1 2 Cons.prems(4) [of x y] show False using ne by auto
  qed
  moreover have "xs = ys'"
  proof (rule Cons.IH)
    show "sorted_wrt R xs" using Cons.prems(1) by simp
    show "sorted_wrt R ys'" using Cons.prems(2) ys by simp
    show "mset xs = mset ys'" using Cons.prems(3) ys \<open>x = y\<close> by simp
    show "\<And>a b. a \<in> set xs \<Longrightarrow> b \<in> set xs \<Longrightarrow> R a b \<Longrightarrow> R b a \<Longrightarrow> a = b"
      using Cons.prems(4) by auto
  qed
  ultimately show ?case using ys by simp
qed

lemma ranksBefore_antisym: "ranksBefore a b \<Longrightarrow> ranksBefore b a \<Longrightarrow> sortKey a = sortKey b"
  by (auto simp: ranksBefore_def sortKey_def)

lemma ranksBefore_same_key: "sortKey x = sortKey y \<Longrightarrow> ranksBefore x y"
  by (simp add: sortKey_def ranksBefore_def)

lemma filter_key_insert_by:
  "filter (\<lambda>t. sortKey t = k) (insert_by compareThreads x ys)
     = (if sortKey x = k then x # filter (\<lambda>t. sortKey t = k) ys
        else filter (\<lambda>t. sortKey t = k) ys)"
proof (induction ys)
  case Nil
  then show ?case by simp
next
  case (Cons y ys)
  show ?case
  proof (cases "compareThreads x y \<le> 0")
    case True
    then show ?thesis by simp
  next
    case False
    then have "\<not> ranksBefore x y" by (simp add: compareThreads_le)
    then have "sortKey x \<noteq> sortKey y" using ranksBefore_same_key by blast
    then show ?thesis using False Cons.IH by auto
  qed
qed

lemma sortThreads_stable:
  "filter (\<lambda>t. sortKey t = k) (sortThreads xs) = filter (\<lambda>t. sortKey t = k) xs"
  by (induction xs) (simp_all add: sortThreads_def Array_sort_def filter_key_insert_by)

text \<open>
  C8, as amended. The fallback ranking orders the threads descending by last-reply
  timestamp and, among equal timestamps, descending by post number; the result is a
  rearrangement of the input. Threads that agree on both keys keep the order they had
  in the input, so the result is fixed by the input multiset when no two threads agree
  on both keys.
\<close>

theorem sortThreads_ranked:
  "sorted_wrt ranksBefore (sortThreads xs)
   \<and> mset (sortThreads xs) = mset xs
   \<and> filter (\<lambda>t. sortKey t = k) (sortThreads xs) = filter (\<lambda>t. sortKey t = k) xs
   \<and> (inj_on sortKey (set xs) \<and> mset ys = mset xs \<longrightarrow> sortThreads ys = sortThreads xs)"
proof (intro conjI impI)
  show "sorted_wrt ranksBefore (sortThreads xs)" by (rule sorted_sortThreads)
  show m: "mset (sortThreads xs) = mset xs" by (simp add: sortThreads_def mset_Array_sort)
  show "filter (\<lambda>t. sortKey t = k) (sortThreads xs) = filter (\<lambda>t. sortKey t = k) xs"
    by (rule sortThreads_stable)
  assume a: "inj_on sortKey (set xs) \<and> mset ys = mset xs"
  have my: "mset (sortThreads ys) = mset xs" using a by (simp add: sortThreads_def mset_Array_sort)
  have sy: "set (sortThreads ys) = set xs" using my by (metis set_mset_mset)
  show "sortThreads ys = sortThreads xs"
  proof (rule sorted_wrt_unique [where R = ranksBefore])
    show "sorted_wrt ranksBefore (sortThreads ys)" by (rule sorted_sortThreads)
    show "sorted_wrt ranksBefore (sortThreads xs)" by (rule sorted_sortThreads)
    show "mset (sortThreads ys) = mset (sortThreads xs)" using m my by simp
    fix a b assume "a \<in> set (sortThreads ys)" "b \<in> set (sortThreads ys)" "ranksBefore a b" "ranksBefore b a"
    then show "a = b" using a sy ranksBefore_antisym [of a b] by (auto dest: inj_onD)
  qed
qed

text \<open>
  The three threads of the test (timestamps 100, 300 and 200), in two input orders.
\<close>

theorem sortThreads_ranked_witness:
  "inj_on sortKey (set [(mockThread ''QmA'')\<lparr>lastReplyTimestamp := Some 100\<rparr>,
                        (mockThread ''QmB'')\<lparr>lastReplyTimestamp := Some 300\<rparr>,
                        (mockThread ''QmC'')\<lparr>lastReplyTimestamp := Some 200\<rparr>])
   \<and> sortThreads [(mockThread ''QmC'')\<lparr>lastReplyTimestamp := Some 200\<rparr>,
                   (mockThread ''QmB'')\<lparr>lastReplyTimestamp := Some 300\<rparr>,
                   (mockThread ''QmA'')\<lparr>lastReplyTimestamp := Some 100\<rparr>]
     = sortThreads [(mockThread ''QmA'')\<lparr>lastReplyTimestamp := Some 100\<rparr>,
                    (mockThread ''QmB'')\<lparr>lastReplyTimestamp := Some 300\<rparr>,
                    (mockThread ''QmC'')\<lparr>lastReplyTimestamp := Some 200\<rparr>]
   \<and> sortThreads [(mockThread ''QmA'')\<lparr>lastReplyTimestamp := Some 100\<rparr>,
                    (mockThread ''QmB'')\<lparr>lastReplyTimestamp := Some 300\<rparr>,
                    (mockThread ''QmC'')\<lparr>lastReplyTimestamp := Some 200\<rparr>]
     = [(mockThread ''QmB'')\<lparr>lastReplyTimestamp := Some 300\<rparr>,
        (mockThread ''QmC'')\<lparr>lastReplyTimestamp := Some 200\<rparr>,
        (mockThread ''QmA'')\<lparr>lastReplyTimestamp := Some 100\<rparr>]"
proof -
  let ?a = "(mockThread ''QmA'')\<lparr>lastReplyTimestamp := Some 100\<rparr>"
  let ?b = "(mockThread ''QmB'')\<lparr>lastReplyTimestamp := Some 300\<rparr>"
  let ?c = "(mockThread ''QmC'')\<lparr>lastReplyTimestamp := Some 200\<rparr>"
  have i: "inj_on sortKey (set [?a, ?b, ?c])"
    by (simp add: sortKey_def nullish_def mockThread_def)
  have m: "mset [?c, ?b, ?a] = mset [?a, ?b, ?c]" by simp
  have r: "sortThreads [?a, ?b, ?c] = [?b, ?c, ?a]"
    by (simp add: sortThreads_def Array_sort_def compareThreads_def nullish_def mockThread_def)
  show ?thesis
    using i m r sortThreads_ranked [where xs = "[?a, ?b, ?c]" and ys = "[?c, ?b, ?a]"] by blast
qed

text \<open>
  The claim as stated fails for two threads that agree on both keys, here two threads
  with neither field: the two input orders hold the same threads and are ranked
  differently.
\<close>

theorem sortThreads_order_counterexample:
  "mset [mockThread ''QmA'', mockThread ''QmB''] = mset [mockThread ''QmB'', mockThread ''QmA'']
   \<and> sortThreads [mockThread ''QmA'', mockThread ''QmB''] \<noteq> sortThreads [mockThread ''QmB'', mockThread ''QmA'']"
  by (simp add: sortThreads_def Array_sort_def compareThreads_def nullish_def mockThread_def)

text \<open>
  C10. The comparator reads an absent last-reply timestamp and an absent post number as
  0, in either argument, so in the ranking a thread without a last-reply timestamp
  comes after every thread with a positive one. The comparator is a total function of
  the two threads: its body is two subtractions of numbers.
\<close>

theorem compareThreads_absent_as_zero:
  "compareThreads (a\<lparr>lastReplyTimestamp := None\<rparr>) b = compareThreads (a\<lparr>lastReplyTimestamp := Some 0\<rparr>) b
   \<and> compareThreads a (b\<lparr>lastReplyTimestamp := None\<rparr>) = compareThreads a (b\<lparr>lastReplyTimestamp := Some 0\<rparr>)
   \<and> compareThreads (a\<lparr>postNumber := None\<rparr>) b = compareThreads (a\<lparr>postNumber := Some 0\<rparr>) b
   \<and> compareThreads a (b\<lparr>postNumber := None\<rparr>) = compareThreads a (b\<lparr>postNumber := Some 0\<rparr>)
   \<and> (a \<in> set threads \<and> lastReplyTimestamp a = None \<and> b \<in> set threads
        \<and> lastReplyTimestamp b = Some t \<and> t > 0 \<longrightarrow>
       (\<exists>i j. i < j \<and> j < length (sortThreads threads)
              \<and> sortThreads threads ! i = b \<and> sortThreads threads ! j = a))"
proof -
  have cmp: "compareThreads (a\<lparr>lastReplyTimestamp := None\<rparr>) b = compareThreads (a\<lparr>lastReplyTimestamp := Some 0\<rparr>) b
   \<and> compareThreads a (b\<lparr>lastReplyTimestamp := None\<rparr>) = compareThreads a (b\<lparr>lastReplyTimestamp := Some 0\<rparr>)
   \<and> compareThreads (a\<lparr>postNumber := None\<rparr>) b = compareThreads (a\<lparr>postNumber := Some 0\<rparr>) b
   \<and> compareThreads a (b\<lparr>postNumber := None\<rparr>) = compareThreads a (b\<lparr>postNumber := Some 0\<rparr>)"
    by (simp add: compareThreads_def nullish_def)
  have pos: "\<exists>i j. i < j \<and> j < length (sortThreads threads)
              \<and> sortThreads threads ! i = b \<and> sortThreads threads ! j = a"
    if h: "a \<in> set threads \<and> lastReplyTimestamp a = None \<and> b \<in> set threads
        \<and> lastReplyTimestamp b = Some t \<and> t > 0"
  proof -
    let ?ys = "sortThreads threads"
    have s: "set ?ys = set threads"
      by (metis mset_Array_sort set_mset_mset sortThreads_def)
    from h s obtain j where j: "j < length ?ys" "?ys ! j = a" by (metis in_set_conv_nth)
    from h s obtain i where i: "i < length ?ys" "?ys ! i = b" by (metis in_set_conv_nth)
    have nab: "\<not> ranksBefore a b" using h by (simp add: ranksBefore_def nullish_def)
    have "i \<noteq> j" using i j h by auto
    moreover have "\<not> j < i"
    proof
      assume "j < i"
      then have "ranksBefore (?ys ! j) (?ys ! i)"
        using sorted_sortThreads [of threads] i(1) by (simp add: sorted_wrt_iff_nth_less)
      then show False using nab i j by simp
    qed
    ultimately have "i < j" by simp
    then show ?thesis using i j by blast
  qed
  show ?thesis using cmp pos by blast
qed

text \<open>A thread without a timestamp, ranked with a thread whose timestamp is 5.\<close>

theorem compareThreads_absent_as_zero_witness:
  "(\<exists>i j. i < j \<and> j < length (sortThreads [mockThread ''QmOld'', (mockThread ''QmNew'')\<lparr>lastReplyTimestamp := Some 5\<rparr>])
      \<and> sortThreads [mockThread ''QmOld'', (mockThread ''QmNew'')\<lparr>lastReplyTimestamp := Some 5\<rparr>] ! i
           = (mockThread ''QmNew'')\<lparr>lastReplyTimestamp := Some 5\<rparr>
      \<and> sortThreads [mockThread ''QmOld'', (mockThread ''QmNew'')\<lparr>lastReplyTimestamp := Some 5\<rparr>] ! j
           = mockThread ''QmOld'')
   \<and> sortThreads [mockThread ''QmOld'', (mockThread ''QmNew'')\<lparr>lastReplyTimestamp := Some 5\<rparr>]
       = [(mockThread ''QmNew'')\<lparr>lastReplyTimestamp := Some 5\<rparr>, mockThread ''QmOld'']"
proof -
  let ?o = "mockThread ''QmOld''"
  let ?n = "(mockThread ''QmNew'')\<lparr>lastReplyTimestamp := Some 5\<rparr>"
  have h: "?o \<in> set [?o, ?n] \<and> lastReplyTimestamp ?o = None \<and> ?n \<in> set [?o, ?n]
           \<and> lastReplyTimestamp ?n = Some 5 \<and> (5::int) > 0"
    by (simp add: mockThread_def)
  have r: "sortThreads [?o, ?n] = [?n, ?o]"
    by (simp add: sortThreads_def Array_sort_def compareThreads_def nullish_def mockThread_def)
  show ?thesis
    using h r compareThreads_absent_as_zero [of ?o ?n "[?o, ?n]" 5] by blast
qed

section \<open>Single flight and coalescing\<close>

lemma run_Nil: "run s [] = s" by (simp add: run_def)
lemma run_Cons: "run s (e # es) = run (step s e) es" by (simp add: run_def)
lemma run_append: "run s (es @ es') = run (run s es) es'" by (simp add: run_def)

lemma step_invariant:
  "inFlight s = (if running s then 1 else 0) \<and> (pending s \<longrightarrow> running s) \<Longrightarrow>
   inFlight (step s e) = (if running (step s e) then 1 else 0) \<and> (pending (step s e) \<longrightarrow> running (step s e))"
  by (cases e) (auto simp: startCycle_def Let_def split: if_splits)

lemma run_invariant:
  "inFlight s = (if running s then 1 else 0) \<and> (pending s \<longrightarrow> running s) \<Longrightarrow>
   inFlight (run s es) = (if running (run s es) then 1 else 0) \<and> (pending (run s es) \<longrightarrow> running (run s es))"
proof (induction es arbitrary: s)
  case Nil
  then show ?case by (simp add: run_Nil)
next
  case (Cons e es)
  from step_invariant [OF Cons.prems, of e] show ?case
    unfolding run_Cons by (rule Cons.IH)
qed

lemma reachable_invariant:
  "inFlight (run idle es) = (if running (run idle es) then 1 else 0)
   \<and> (pending (run idle es) \<longrightarrow> running (run idle es))"
  by (rule run_invariant) (simp add: idle_def)

lemma run_notifications:
  "running s \<Longrightarrow> run s (replicate n Notification) = (if n = 0 then s else s\<lparr>pending := True\<rparr>)"
proof (induction n arbitrary: s)
  case 0
  then show ?case by (simp add: run_Nil)
next
  case (Suc n)
  have "running (s\<lparr>pending := True\<rparr>)" using Suc.prems by simp
  from Suc.IH [OF this] show ?case using Suc.prems
    by (simp add: run_Cons)
qed

text \<open>
  C3. After any sequence of notifications and completions, at most one cycle is in
  flight. From a state in which a cycle has just started, any number \<^verbatim>\<open>n\<close> of
  notifications followed by the completion of the cycle starts exactly one more cycle
  when \<^verbatim>\<open>n > 0\<close> and none when \<^verbatim>\<open>n = 0\<close>. From idle, a notification, \<^verbatim>\<open>n\<close> more
  during its cycle and the completions give two cycles in all, or one when \<^verbatim>\<open>n = 0\<close>.
\<close>

theorem scheduler_single_flight:
  "inFlight (run idle es) \<le> 1
   \<and> (running (run idle es) \<and> \<not> pending (run idle es) \<longrightarrow>
        cyclesStarted (run (run idle es) (replicate n Notification @ [CycleCompleted]))
          = cyclesStarted (run idle es) + (if n = 0 then 0 else 1)
        \<and> inFlight (run (run idle es) (replicate n Notification @ [CycleCompleted]))
          = (if n = 0 then 0 else 1)
        \<and> \<not> pending (run (run idle es) (replicate n Notification @ [CycleCompleted])))
   \<and> cyclesStarted (run idle (Notification # replicate n Notification @ [CycleCompleted, CycleCompleted]))
        = (if n = 0 then 1 else 2)"
proof (intro conjI impI)
  show "inFlight (run idle es) \<le> 1" using reachable_invariant [of es] by (simp split: if_splits)
next
  assume a: "running (run idle es) \<and> \<not> pending (run idle es)"
  let ?s = "run idle es"
  have i: "inFlight ?s = 1" using reachable_invariant [of es] a by simp
  have r: "run ?s (replicate n Notification @ [CycleCompleted])
             = step (if n = 0 then ?s else ?s\<lparr>pending := True\<rparr>) CycleCompleted"
    using a by (simp add: run_append run_notifications run_Cons run_Nil)
  show "cyclesStarted (run ?s (replicate n Notification @ [CycleCompleted]))
          = cyclesStarted ?s + (if n = 0 then 0 else 1)"
    unfolding r using a i by (simp add: startCycle_def Let_def)
  show "inFlight (run ?s (replicate n Notification @ [CycleCompleted])) = (if n = 0 then 0 else 1)"
    unfolding r using a i by (simp add: startCycle_def Let_def)
  show "\<not> pending (run ?s (replicate n Notification @ [CycleCompleted]))"
    unfolding r using a i by (simp add: startCycle_def Let_def)
next
  have 1: "run idle (Notification # replicate n Notification @ [CycleCompleted, CycleCompleted])
        = run (run (startCycle idle) (replicate n Notification)) [CycleCompleted, CycleCompleted]"
    by (simp add: run_Cons run_append idle_def)
  have 2: "running (startCycle idle)" by (simp add: startCycle_def)
  show "cyclesStarted (run idle (Notification # replicate n Notification @ [CycleCompleted, CycleCompleted]))
        = (if n = 0 then 1 else 2)"
    unfolding 1 run_notifications [OF 2]
    by (simp add: run_Cons run_Nil startCycle_def idle_def Let_def)
qed

text \<open>
  The two scheduler tests: two notifications during the first cycle give two cycles in
  all, and none gives one.
\<close>

theorem scheduler_single_flight_witness:
  "running (run idle [Notification]) \<and> \<not> pending (run idle [Notification])
   \<and> cyclesStarted (run (run idle [Notification]) (replicate 2 Notification @ [CycleCompleted])) = 2
   \<and> cyclesStarted (run (run idle [Notification]) (replicate 0 Notification @ [CycleCompleted])) = 1"
proof -
  have h: "running (run idle [Notification]) \<and> \<not> pending (run idle [Notification])"
    by (simp add: run_def idle_def startCycle_def)
  have c: "cyclesStarted (run idle [Notification]) = 1"
    by (simp add: run_def idle_def startCycle_def)
  show ?thesis
    using h c scheduler_single_flight [of "[Notification]" 2] scheduler_single_flight [of "[Notification]" 0]
    by simp
qed

end
